theory Spec2Isabelle
  imports Main "HOL-Library.AList" "HOL-Library.Char_ord" "HOL-Library.List_Lexorder"
    "HOL-Library.Word"
begin

unbundle bit_operations_syntax

section \<open>Errors\<close>

text \<open>
  The exception classes of the lineage core, without their messages, together with the two
  built-in exceptions the code can run into: a failed \<^verbatim>\<open>assert\<close> and a failed
  dictionary subscript.
\<close>

datatype error =
    CanonicalizationError
  | IdentityError
  | LineageError
  | MergeError
  | AssertionError
  | KeyError

section \<open>Python values\<close>

text \<open>
  A Python \<^verbatim>\<open>str\<close> is a \<^typ>\<open>string\<close>: one \<^typ>\<open>char\<close> per code point, code points
  below 256. The order on strings is the lexicographic order on code points, which is both
  Python's \<^verbatim>\<open>str.__lt__\<close> and the byte-wise order of the UTF-8 encodings.

  A \<^verbatim>\<open>float\<close> is carried as the text that \<^verbatim>\<open>float.__repr__\<close> prints for it: binary
  floating point has no counterpart in HOL, and the encoder only ever prints a float.
  A \<^verbatim>\<open>dict\<close> is the list of its items in insertion order, a \<^verbatim>\<open>set\<close> or
  \<^verbatim>\<open>frozenset\<close> the list of its elements in iteration order. \<open>PBytes\<close> stands for
  \<^verbatim>\<open>bytes\<close>, \<^verbatim>\<open>bytearray\<close> and \<^verbatim>\<open>memoryview\<close>, \<open>PObject\<close> (with the name of its
  type) for a value of any other type.
\<close>

datatype pyval =
    PNone
  | PBool bool
  | PInt int
  | PFloat string
  | PStr string
  | PDict "(pyval \<times> pyval) list"
  | PList "pyval list"
  | PTuple "pyval list"
  | PSet "pyval list"
  | PBytes "8 word list"
  | PObject string

text \<open>
  What \<^verbatim>\<open>_normalize\<close> returns: a tree of \<^verbatim>\<open>None\<close>, booleans, integers, floats, strings,
  lists and dictionaries with string keys, that is, a value \<^verbatim>\<open>json.dumps\<close> accepts.
\<close>

datatype json =
    JNull
  | JBool bool
  | JInt int
  | JFloat string
  | JStr string
  | JArr "json list"
  | JObj "(string \<times> json) list"

section \<open>\<^verbatim>\<open>json.dumps(..., ensure_ascii=False, sort_keys=True, separators=(",", ":"))\<close>\<close>

definition digit_char :: "nat \<Rightarrow> char" where
  "digit_char n = ''0123456789abcdef'' ! (n mod 16)"

function nat_repr :: "nat \<Rightarrow> string" where
  "nat_repr n = (if n < 10 then [digit_char n] else nat_repr (n div 10) @ [digit_char (n mod 10)])"
  by pat_completeness auto
termination
  by (relation "measure id") auto

declare nat_repr.simps [simp del]

definition int_repr :: "int \<Rightarrow> string" where
  "int_repr i = (if i < 0 then CHR ''-'' # nat_repr (nat (- i)) else nat_repr (nat i))"

text \<open>
  \<^verbatim>\<open>json.encoder.encode_basestring\<close>: the quotation mark, the backslash and the control
  characters below U+0020 are escaped, every other character is copied.
\<close>

definition escape_char :: "char \<Rightarrow> string" where
  "escape_char c =
     (if c = CHR 0x5C then [CHR 0x5C, CHR 0x5C]
      else if c = CHR 0x22 then [CHR 0x5C, CHR 0x22]
      else if c = CHR 0x08 then [CHR 0x5C, CHR ''b'']
      else if c = CHR 0x0C then [CHR 0x5C, CHR ''f'']
      else if c = CHR 0x0A then [CHR 0x5C, CHR ''n'']
      else if c = CHR 0x0D then [CHR 0x5C, CHR ''r'']
      else if c = CHR 0x09 then [CHR 0x5C, CHR ''t'']
      else if (of_char c :: nat) < 32
        then [CHR 0x5C, CHR ''u'', CHR ''0'', CHR ''0'',
              digit_char (of_char c div 16), digit_char (of_char c mod 16)]
      else [c])"

definition encode_basestring :: "string \<Rightarrow> string" where
  "encode_basestring s = CHR 0x22 # concat (map escape_char s) @ [CHR 0x22]"

text \<open>\<^verbatim>\<open>sep.join(parts)\<close>\<close>

fun join :: "string \<Rightarrow> string list \<Rightarrow> string" where
  "join sep [] = []"
| "join sep [x] = x"
| "join sep (x # y # ys) = x @ sep @ join sep (y # ys)"

fun json_dumps :: "json \<Rightarrow> string" where
  "json_dumps JNull = ''null''"
| "json_dumps (JBool b) = (if b then ''true'' else ''false'')"
| "json_dumps (JInt i) = int_repr i"
| "json_dumps (JFloat r) = r"
| "json_dumps (JStr s) = encode_basestring s"
| "json_dumps (JArr xs) = ''['' @ join '','' (map json_dumps xs) @ '']''"
| "json_dumps (JObj kvs) =
     ''{'' @ join '',''
        (map (\<lambda>kv. encode_basestring (fst kv) @ '':'' @ json_dumps (snd kv)) (sort_key fst kvs))
      @ ''}''"

section \<open>canonicalization.py\<close>

text \<open>A list comprehension over calls that may raise: the first exception ends it.\<close>

fun collect :: "(error + 'a) list \<Rightarrow> error + 'a list" where
  "collect [] = Inr []"
| "collect (Inl e # rs) = Inl e"
| "collect (Inr x # rs) = (case collect rs of Inl e \<Rightarrow> Inl e | Inr xs \<Rightarrow> Inr (x # xs))"

text \<open>
  \<^verbatim>\<open>out = {}; for k, v in items: out[k] = v\<close>: a key that is already present keeps its
  position and takes the new value, a new key goes to the end.
\<close>

definition dict_of_items :: "('k \<times> 'v) list \<Rightarrow> ('k \<times> 'v) list" where
  "dict_of_items items = fold (\<lambda>kv out. AList.update (fst kv) (snd kv) out) items []"

text \<open>
  \<^verbatim>\<open>_normalize\<close> applied to a value that is already normalised, as happens to the elements
  of a set, which \<^verbatim>\<open>_normalize\<close> hands to \<^verbatim>\<open>canonicalize_payload\<close> after normalising
  them: only the primitive, the \<^verbatim>\<open>Mapping\<close> and the \<^verbatim>\<open>list\<close> branches can be taken, and
  no key can fail the \<^verbatim>\<open>isinstance(k, str)\<close> test.
\<close>

fun normalize_json :: "json \<Rightarrow> json" where
  "normalize_json (JObj kvs) =
     JObj (dict_of_items (map (\<lambda>kv. (fst kv, normalize_json (snd kv))) kvs))"
| "normalize_json (JArr xs) = JArr (map normalize_json xs)"
| "normalize_json j = j"

definition canonicalize_json :: "json \<Rightarrow> string" where
  "canonicalize_json j = json_dumps (normalize_json j)"

text \<open>
  \<^verbatim>\<open>_normalize\<close>. \<^verbatim>\<open>_normalize_number\<close> returns booleans and integers as they are and
  sends a float through \<^verbatim>\<open>float(f"{x:.17g}")\<close>, which gives back the same double, so the
  float's text is unchanged.
\<close>

fun normalize :: "pyval \<Rightarrow> error + json" where
  "normalize PNone = Inr JNull"
| "normalize (PBool b) = Inr (JBool b)"
| "normalize (PInt i) = Inr (JInt i)"
| "normalize (PFloat r) = Inr (JFloat r)"
| "normalize (PStr s) = Inr (JStr s)"
| "normalize (PDict kvs) =
     (case collect (map (\<lambda>kv. case fst kv of
                                 PStr k \<Rightarrow> (case normalize (snd kv) of
                                              Inl e \<Rightarrow> Inl e
                                            | Inr j \<Rightarrow> Inr (k, j))
                               | _ \<Rightarrow> Inl CanonicalizationError) kvs) of
        Inl e \<Rightarrow> Inl e
      | Inr items \<Rightarrow> Inr (JObj (dict_of_items items)))"
| "normalize (PList xs) =
     (case collect (map normalize xs) of Inl e \<Rightarrow> Inl e | Inr items \<Rightarrow> Inr (JArr items))"
| "normalize (PTuple xs) =
     (case collect (map normalize xs) of Inl e \<Rightarrow> Inl e | Inr items \<Rightarrow> Inr (JArr items))"
| "normalize (PSet xs) =
     (case collect (map normalize xs) of
        Inl e \<Rightarrow> Inl e
      | Inr items \<Rightarrow> Inr (JArr (map JStr (sort (map canonicalize_json items)))))"
| "normalize (PBytes bs) = Inl CanonicalizationError"
| "normalize (PObject ty) = Inl CanonicalizationError"

definition canonicalize_payload :: "pyval \<Rightarrow> error + string" where
  "canonicalize_payload obj =
     (case normalize obj of Inl e \<Rightarrow> Inl e | Inr normalized \<Rightarrow> Inr (json_dumps normalized))"

section \<open>identity.py\<close>

text \<open>
  \<^verbatim>\<open>hashlib.blake2b\<close> belongs to the Python standard library, not to the repository: the
  hash is a parameter, any function from byte strings to 256-bit digests.
\<close>

type_synonym hash256 = "8 word list \<Rightarrow> 256 word"

text \<open>\<^verbatim>\<open>str.encode("utf-8")\<close> for code points below 256.\<close>

definition utf8_encode :: "string \<Rightarrow> 8 word list" where
  "utf8_encode s =
     concat (map (\<lambda>c. if (of_char c :: nat) < 128 then [of_char c]
                        else [of_nat (192 + of_char c div 64), of_nat (128 + of_char c mod 64)]) s)"

text \<open>\<^verbatim>\<open>hexdigest()\<close>: the 32 bytes of the digest, two lower-case hexadecimal digits each.\<close>

definition hexdigest :: "256 word \<Rightarrow> string" where
  "hexdigest w = map (\<lambda>i. digit_char (unat (drop_bit (4 * (63 - i)) w AND 15))) [0..<64]"

definition blake2b_256 :: "hash256 \<Rightarrow> 8 word list \<Rightarrow> string" where
  "blake2b_256 H data = hexdigest (H data)"

text \<open>The \<^verbatim>\<open>material\<close> dictionary of \<^verbatim>\<open>canonical_fingerprint\<close>.\<close>

definition material :: "string \<Rightarrow> string \<Rightarrow> string \<Rightarrow> string \<Rightarrow> string \<Rightarrow> pyval" where
  "material version kind namespace scope canonical =
     PDict [(PStr ''version'', PStr version),
            (PStr ''kind'', PStr kind),
            (PStr ''namespace'', PStr namespace),
            (PStr ''scope'', PStr scope),
            (PStr ''payload'', PStr canonical)]"

definition canonical_fingerprint ::
  "hash256 \<Rightarrow> string \<Rightarrow> string \<Rightarrow> pyval \<Rightarrow> string \<Rightarrow> string \<Rightarrow> error + string" where
  "canonical_fingerprint H kind namespace payload scope version =
     (if kind = [] \<or> namespace = [] then Inl IdentityError
      else case canonicalize_payload payload of
             Inl e \<Rightarrow> Inl e
           | Inr canonical \<Rightarrow>
               (case canonicalize_payload (material version kind namespace scope canonical) of
                  Inl e \<Rightarrow> Inl e
                | Inr outer \<Rightarrow> Inr (blake2b_256 H (utf8_encode outer))))"

record IdentityAnchor =
  anchor_id :: string
  anchor_kind :: string
  anchor_namespace :: string
  anchor_scope :: string
  anchor_version :: string

text \<open>\<^verbatim>\<open>IdentityAnchor.create\<close>\<close>

definition create ::
  "hash256 \<Rightarrow> string \<Rightarrow> string \<Rightarrow> pyval \<Rightarrow> string \<Rightarrow> string \<Rightarrow> error + IdentityAnchor" where
  "create H kind namespace payload scope version =
     (case canonical_fingerprint H kind namespace payload scope version of
        Inl e \<Rightarrow> Inl e
      | Inr fp \<Rightarrow> Inr \<lparr>anchor_id = fp, anchor_kind = kind, anchor_namespace = namespace,
                      anchor_scope = scope, anchor_version = version\<rparr>)"

section \<open>lineage_store.py\<close>

record Commit =
  commit_id :: string
  timestamp_ms :: int
  parents :: "string list"
  op :: string
  subject_id :: string
  subject_kind :: string
  subject_namespace :: string
  subject_scope :: string
  payload :: "(pyval \<times> pyval) list"
  note_text :: string

text \<open>
  The two dictionaries of a \<^verbatim>\<open>LineageStore\<close>, each as the list of its items in insertion
  order.
\<close>

record LineageStore =
  commits :: "(string \<times> Commit) list"
  children :: "(string \<times> string set) list"

definition empty_store :: LineageStore where
  "empty_store = \<lparr>commits = [], children = []\<rparr>"

definition exists :: "LineageStore \<Rightarrow> string \<Rightarrow> bool" where
  "exists s cid = (map_of (commits s) cid \<noteq> None)"

definition get :: "LineageStore \<Rightarrow> string \<Rightarrow> error + Commit" where
  "get s cid = (case map_of (commits s) cid of None \<Rightarrow> Inl LineageError | Some c \<Rightarrow> Inr c)"

definition children_of :: "LineageStore \<Rightarrow> string \<Rightarrow> string set" where
  "children_of s cid = (case map_of (children s) cid of None \<Rightarrow> {} | Some S \<Rightarrow> S)"

text \<open>\<^verbatim>\<open>self._children.setdefault(p, set()).add(commit_id)\<close>\<close>

definition add_child :: "string \<Rightarrow> string \<Rightarrow> (string \<times> string set) list \<Rightarrow> (string \<times> string set) list" where
  "add_child cid p ch =
     AList.update p (insert cid (case map_of ch p of None \<Rightarrow> {} | Some S \<Rightarrow> S)) ch"

text \<open>\<^verbatim>\<open>self._children.setdefault(commit_id, set())\<close>\<close>

definition setdefault_empty :: "string \<Rightarrow> (string \<times> string set) list \<Rightarrow> (string \<times> string set) list" where
  "setdefault_empty cid ch = (case map_of ch cid of None \<Rightarrow> AList.update cid {} ch | Some S \<Rightarrow> ch)"

text \<open>
  \<^verbatim>\<open>LineageStore.append\<close>. The first two arguments are what \<^verbatim>\<open>uuid.uuid4().hex\<close> and
  \<^verbatim>\<open>int(time.time() * 1000)\<close> return in this call. The result pairs the commit, or the
  exception raised, with the store as the call leaves it.
\<close>

definition append ::
  "string \<Rightarrow> int \<Rightarrow> LineageStore \<Rightarrow> string list \<Rightarrow> string \<Rightarrow> string \<Rightarrow> string \<Rightarrow> string \<Rightarrow> string
    \<Rightarrow> (pyval \<times> pyval) list option \<Rightarrow> string \<Rightarrow> (error + Commit) \<times> LineageStore" where
  "append cid ts s parent_ids operation sid skind snamespace sscope pl note =
     (if \<not> list_all (\<lambda>p. map_of (commits s) p \<noteq> None) parent_ids then (Inl LineageError, s)
      else
        let c = \<lparr>commit_id = cid, timestamp_ms = ts, parents = parent_ids, op = operation,
                 subject_id = sid, subject_kind = skind, subject_namespace = snamespace,
                 subject_scope = sscope,
                 payload = (case pl of None \<Rightarrow> [] | Some kvs \<Rightarrow> kvs),
                 note_text = note\<rparr>
        in (Inr c,
            \<lparr>commits = AList.update cid c (commits s),
             children = setdefault_empty cid (fold (add_child cid) parent_ids (children s))\<rparr>))"

text \<open>
  The inner loop of \<^verbatim>\<open>ancestors_of\<close> over the parents of the commit just popped. The
  stack is a list whose head is the top.
\<close>

definition visit :: "string \<Rightarrow> string set \<times> string list \<Rightarrow> string set \<times> string list" where
  "visit p vs = (if p \<notin> fst vs then (insert p (fst vs), p # snd vs) else vs)"

text \<open>All the ids that occur as a parent somewhere in the store.\<close>

definition parent_ids_of :: "(string \<times> Commit) list \<Rightarrow> string set" where
  "parent_ids_of cs = (\<Union>kc \<in> set cs. set (parents (snd kc)))"

text \<open>
  The \<^verbatim>\<open>while stack:\<close> loop of \<^verbatim>\<open>ancestors_of\<close>. \<^verbatim>\<open>self._commits[cur]\<close> raises
  \<^verbatim>\<open>KeyError\<close> for an id that is not in the dictionary.
\<close>

function ancestors_loop ::
  "(string \<times> Commit) list \<Rightarrow> string set \<Rightarrow> string list \<Rightarrow> error + string set" where
  "ancestors_loop cs visited [] = Inr visited"
| "ancestors_loop cs visited (cur # stack) =
     (case map_of cs cur of
        None \<Rightarrow> Inl KeyError
      | Some c \<Rightarrow> ancestors_loop cs (fst (fold visit (parents c) (visited, stack)))
                                    (snd (fold visit (parents c) (visited, stack))))"
  by pat_completeness auto
termination
proof (relation "measure (\<lambda>(cs, visited, stack).
                   2 * card (parent_ids_of cs - visited) + length stack)", goal_cases)
  case 1
  show ?case by simp
next
  case (2 cs visited cur stack c)
  define U where "U = parent_ids_of cs"
  have fin: "finite U" by (simp add: U_def parent_ids_of_def)
  have pushes: "2 * card (U - fst (fold visit ps vs)) + length (snd (fold visit ps vs))
                  \<le> 2 * card (U - fst vs) + length (snd vs)" if "set ps \<subseteq> U" for ps vs
    using that
  proof (induction ps arbitrary: vs)
    case Nil
    then show ?case by simp
  next
    case (Cons p ps)
    have step: "2 * card (U - fst (visit p vs)) + length (snd (visit p vs))
                  \<le> 2 * card (U - fst vs) + length (snd vs)"
    proof (cases "p \<in> fst vs")
      case True
      then show ?thesis by (simp add: visit_def)
    next
      case False
      with Cons.prems have "p \<in> U - fst vs" by simp
      moreover have "finite (U - fst vs)" using fin by simp
      ultimately have "card (U - fst vs - {p}) < card (U - fst vs)"
        by (meson card_Diff1_less)
      moreover have "U - insert p (fst vs) = U - fst vs - {p}" by blast
      ultimately show ?thesis using False by (simp add: visit_def)
    qed
    from Cons.prems have "set ps \<subseteq> U" by simp
    from Cons.IH [OF this, of "visit p vs"] step show ?case by simp
  qed
  from 2 have "(cur, c) \<in> set cs" by (simp add: map_of_SomeD)
  then have "set (parents c) \<subseteq> U"
    by (force simp: U_def parent_ids_of_def)
  from pushes [OF this, of "(visited, stack)"] show ?case
    by (simp add: case_prod_beta U_def)
qed

definition ancestors_of :: "LineageStore \<Rightarrow> string \<Rightarrow> error + string set" where
  "ancestors_of s cid =
     (if map_of (commits s) cid = None then Inl LineageError
      else ancestors_loop (commits s) {} [cid])"

definition lca_candidates :: "LineageStore \<Rightarrow> string \<Rightarrow> string \<Rightarrow> error + string set" where
  "lca_candidates s a b =
     (if map_of (commits s) a = None \<or> map_of (commits s) b = None then Inl LineageError
      else case ancestors_of s a of
             Inl e \<Rightarrow> Inl e
           | Inr anc_a \<Rightarrow>
               (case ancestors_of s b of
                  Inl e \<Rightarrow> Inl e
                | Inr anc_b \<Rightarrow> Inr ((anc_a \<union> {a}) \<inter> (anc_b \<union> {b}))))"

section \<open>merge_engine.py\<close>

text \<open>
  The dictionaries that \<^verbatim>\<open>three_way_merge_analysis\<close> puts into \<^verbatim>\<open>actions\<close> and
  \<^verbatim>\<open>conflicts\<close>: string keys, values that are a string or \<^verbatim>\<open>None\<close>.
\<close>

type_synonym entry = "(string \<times> string option) list"

record MergeDecision =
  base_commit :: "string option"
  left_commit :: string
  right_commit :: string
  actions :: "entry list"
  conflicts :: "entry list"
  decision_note :: string

definition index_latest_by_subject :: "Commit list \<Rightarrow> (string \<times> Commit) list" where
  "index_latest_by_subject cs = dict_of_items (map (\<lambda>c. (subject_id c, c)) cs)"

text \<open>
  The \<^verbatim>\<open>while True:\<close> loop of \<^verbatim>\<open>_commit_chain\<close>. Nothing in the loop bounds the walk,
  so the result is an option: \<open>None\<close> is the walk that never ends.
\<close>

partial_function (option) commit_chain_loop ::
  "LineageStore \<Rightarrow> string \<Rightarrow> Commit list \<Rightarrow> (error + Commit list) option" where
  "commit_chain_loop s cur chain =
     (case get s cur of
        Inl e \<Rightarrow> Some (Inl e)
      | Inr c \<Rightarrow> if length (parents c) \<noteq> 1 then Some (Inr (chain @ [c]))
                else commit_chain_loop s (hd (parents c)) (chain @ [c]))"

declare commit_chain_loop.simps [code]

definition commit_chain :: "LineageStore \<Rightarrow> string \<Rightarrow> (error + Commit list) option" where
  "commit_chain s head =
     (case commit_chain_loop s head [] of
        None \<Rightarrow> None
      | Some (Inl e) \<Rightarrow> Some (Inl e)
      | Some (Inr chain) \<Rightarrow> Some (Inr (rev chain)))"

text \<open>Python's order on the tuples \<^verbatim>\<open>(c.timestamp_ms, cid)\<close>.\<close>

definition key_gt :: "int \<times> string \<Rightarrow> int \<times> string \<Rightarrow> bool" where
  "key_gt k1 k2 = (fst k1 > fst k2 \<or> (fst k1 = fst k2 \<and> snd k1 > snd k2))"

text \<open>
  The loop of \<^verbatim>\<open>_pick_base\<close>; \<^verbatim>\<open>best\<close> and \<^verbatim>\<open>best_key\<close> are set together, so they are
  one optional pair.
\<close>

fun pick_loop ::
  "LineageStore \<Rightarrow> string list \<Rightarrow> (string \<times> int \<times> string) option
    \<Rightarrow> error + (string \<times> int \<times> string) option" where
  "pick_loop s [] best = Inr best"
| "pick_loop s (cid # rest) best =
     (case get s cid of
        Inl e \<Rightarrow> Inl e
      | Inr c \<Rightarrow>
          (case best of
             None \<Rightarrow> pick_loop s rest (Some (cid, timestamp_ms c, cid))
           | Some b \<Rightarrow> if key_gt (timestamp_ms c, cid) (snd b)
                       then pick_loop s rest (Some (cid, timestamp_ms c, cid))
                       else pick_loop s rest best))"

text \<open>
  \<^verbatim>\<open>_pick_base\<close>. The candidates are a Python set; the loop visits them here in ascending
  order. The keys of distinct candidates differ, so the greatest key, which the loop
  returns, does not depend on the order.
\<close>

definition pick_base :: "LineageStore \<Rightarrow> string \<Rightarrow> string \<Rightarrow> error + string option" where
  "pick_base s left right =
     (case lca_candidates s left right of
        Inl e \<Rightarrow> Inl e
      | Inr cands \<Rightarrow>
          if cands = {} then Inr None
          else (case pick_loop s (sorted_list_of_set cands) None of
                  Inl e \<Rightarrow> Inl e
                | Inr best \<Rightarrow> Inr (map_option fst best)))"

text \<open>
  \<^verbatim>\<open>_semantic_free_payload_change\<close>. \<^verbatim>\<open>canonicalize_payload\<close> raises nothing but
  \<^verbatim>\<open>CanonicalizationError\<close>, so the \<^verbatim>\<open>except\<close> clause catches every failure.
\<close>

definition semantic_free_payload_change :: "Commit \<Rightarrow> string" where
  "semantic_free_payload_change c =
     (case canonicalize_payload (PDict (payload c)) of
        Inl e \<Rightarrow> ''<opaque-payload>''
      | Inr sig \<Rightarrow> sig)"

text \<open>
  One round of the loop \<^verbatim>\<open>for sid in sorted(all_subjects)\<close>, on the pair of the lists
  \<^verbatim>\<open>actions\<close> and \<^verbatim>\<open>conflicts\<close>. A commit object is always true, so \<^verbatim>\<open>if l\<close> asks
  whether \<^verbatim>\<open>l\<close> is not \<^verbatim>\<open>None\<close>.
\<close>

definition analyse_subject ::
  "Commit option \<Rightarrow> Commit option \<Rightarrow> Commit option \<Rightarrow> string \<Rightarrow> entry list \<times> entry list
    \<Rightarrow> error + entry list \<times> entry list" where
  "analyse_subject lo ro bo sid acc =
     (case (lo, ro) of
        (Some l, None) \<Rightarrow>
          Inr (fst acc @ [[(''subject_id'', Some sid),
                           (''proposal'', Some ''accept_left''),
                           (''reason'', Some ''subject appears only on left branch''),
                           (''left_commit'', Some (commit_id l))]], snd acc)
      | (None, Some r) \<Rightarrow>
          Inr (fst acc @ [[(''subject_id'', Some sid),
                           (''proposal'', Some ''accept_right''),
                           (''reason'', Some ''subject appears only on right branch''),
                           (''right_commit'', Some (commit_id r))]], snd acc)
      | (None, None) \<Rightarrow> Inl AssertionError
      | (Some l, Some r) \<Rightarrow>
          let l_sig = semantic_free_payload_change l;
              r_sig = semantic_free_payload_change r
          in if l_sig = r_sig then
               Inr (fst acc @ [[(''subject_id'', Some sid),
                                (''proposal'', Some ''accept_either''),
                                (''reason'', Some ''structurally equivalent payload changes''),
                                (''left_commit'', Some (commit_id l)),
                                (''right_commit'', Some (commit_id r))]], snd acc)
             else if bo \<noteq> None \<and> l_sig = semantic_free_payload_change (the bo)
                     \<and> r_sig \<noteq> semantic_free_payload_change (the bo) then
               Inr (fst acc @ [[(''subject_id'', Some sid),
                                (''proposal'', Some ''accept_right''),
                                (''reason'', Some ''left matches base; right diverges''),
                                (''base_commit'', Some (commit_id (the bo))),
                                (''right_commit'', Some (commit_id r))]], snd acc)
             else if bo \<noteq> None \<and> r_sig = semantic_free_payload_change (the bo)
                     \<and> l_sig \<noteq> semantic_free_payload_change (the bo) then
               Inr (fst acc @ [[(''subject_id'', Some sid),
                                (''proposal'', Some ''accept_left''),
                                (''reason'', Some ''right matches base; left diverges''),
                                (''base_commit'', Some (commit_id (the bo))),
                                (''left_commit'', Some (commit_id l))]], snd acc)
             else
               Inr (fst acc,
                    snd acc @ [[(''subject_id'', Some sid),
                                (''conflict'', Some ''divergent_updates''),
                                (''reason'', Some ''both branches diverged for same subject_id; requires explicit merge policy''),
                                (''base_commit'', map_option commit_id bo),
                                (''left_commit'', Some (commit_id l)),
                                (''right_commit'', Some (commit_id r)),
                                (''left_payload_sig'', Some l_sig),
                                (''right_payload_sig'', Some r_sig)]]))"

fun merge_loop ::
  "(string \<times> Commit) list \<Rightarrow> (string \<times> Commit) list \<Rightarrow> (string \<times> Commit) list \<Rightarrow> string list
    \<Rightarrow> entry list \<times> entry list \<Rightarrow> error + entry list \<times> entry list" where
  "merge_loop left_latest right_latest base_latest [] acc = Inr acc"
| "merge_loop left_latest right_latest base_latest (sid # sids) acc =
     (case analyse_subject (map_of left_latest sid) (map_of right_latest sid)
             (map_of base_latest sid) sid acc of
        Inl e \<Rightarrow> Inl e
      | Inr acc' \<Rightarrow> merge_loop left_latest right_latest base_latest sids acc')"

text \<open>
  \<^verbatim>\<open>base_latest = _index_latest_by_subject(_commit_chain(store, base)) if base else {}\<close>,
  after \<^verbatim>\<open>store.get(base) if base else None\<close>: \<^verbatim>\<open>None\<close> and the empty string are false.
\<close>

definition base_view :: "LineageStore \<Rightarrow> string option \<Rightarrow> (error + (string \<times> Commit) list) option" where
  "base_view s base =
     (case base of
        None \<Rightarrow> Some (Inr [])
      | Some b \<Rightarrow>
          if b = [] then Some (Inr [])
          else (case get s b of
                  Inl e \<Rightarrow> Some (Inl e)
                | Inr base_record \<Rightarrow>
                    (case commit_chain s b of
                       None \<Rightarrow> None
                     | Some (Inl e) \<Rightarrow> Some (Inl e)
                     | Some (Inr chain) \<Rightarrow> Some (Inr (index_latest_by_subject chain)))))"

definition analysis_note :: string where
  "analysis_note = ''This is a structural merge analysis (no semantic resolution). Conflicts must be resolved by explicit revision decisions.''"

definition three_way_merge_analysis ::
  "LineageStore \<Rightarrow> string \<Rightarrow> string \<Rightarrow> (error + MergeDecision) option" where
  "three_way_merge_analysis s left_head right_head =
     (if \<not> exists s left_head \<or> \<not> exists s right_head then Some (Inl MergeError)
      else case pick_base s left_head right_head of
        Inl e \<Rightarrow> Some (Inl e)
      | Inr base \<Rightarrow>
      (case commit_chain s left_head of
        None \<Rightarrow> None
      | Some (Inl e) \<Rightarrow> Some (Inl e)
      | Some (Inr left_chain) \<Rightarrow>
      (case commit_chain s right_head of
        None \<Rightarrow> None
      | Some (Inl e) \<Rightarrow> Some (Inl e)
      | Some (Inr right_chain) \<Rightarrow>
      (case base_view s base of
        None \<Rightarrow> None
      | Some (Inl e) \<Rightarrow> Some (Inl e)
      | Some (Inr base_latest) \<Rightarrow>
          let left_latest = index_latest_by_subject left_chain;
              right_latest = index_latest_by_subject right_chain;
              all_subjects = set (map fst left_latest @ map fst right_latest @ map fst base_latest)
          in (case merge_loop left_latest right_latest base_latest
                     (sorted_list_of_set all_subjects) ([], []) of
                Inl e \<Rightarrow> Some (Inl e)
              | Inr acc \<Rightarrow>
                  Some (Inr \<lparr>base_commit = base, left_commit = left_head,
                             right_commit = right_head, actions = fst acc,
                             conflicts = snd acc, decision_note = analysis_note\<rparr>))))))"



section \<open>Notions used in the statements\<close>

text \<open>The body of the loop over the items of a dictionary in \<^verbatim>\<open>_normalize\<close>.\<close>

definition dict_item :: "pyval \<times> pyval \<Rightarrow> error + string \<times> json" where
  "dict_item kv = (case fst kv of
                     PStr k \<Rightarrow> (case normalize (snd kv) of
                                  Inl e \<Rightarrow> Inl e
                                | Inr j \<Rightarrow> Inr (k, j))
                   | _ \<Rightarrow> Inl CanonicalizationError)"

text \<open>No dictionary of a normalised value has the same key twice.\<close>

fun json_keys_distinct :: "json \<Rightarrow> bool" where
  "json_keys_distinct (JObj kvs) =
     (distinct (map fst kvs) \<and> list_all (\<lambda>kv. json_keys_distinct (snd kv)) kvs)"
| "json_keys_distinct (JArr xs) = list_all json_keys_distinct xs"
| "json_keys_distinct j = True"

text \<open>
  A stand-in for the hash parameter in closed examples; it is not BLAKE2b, and nothing
  below depends on which function it is.
\<close>

definition toy_hash :: hash256 where
  "toy_hash bs = fold (\<lambda>b h. 31 * h + ucast b) bs 7"

text \<open>The characters that JSON allows between tokens.\<close>

definition is_ws :: "char \<Rightarrow> bool" where
  "is_ws c = (c = CHR '' '' \<or> c = CHR 0x09 \<or> c = CHR 0x0A \<or> c = CHR 0x0D)"

definition ws_free :: "string \<Rightarrow> bool" where
  "ws_free s = list_all (\<lambda>c. \<not> is_ws c) s"

text \<open>
  No string of the value, key or element, contains a space, and no float text a
  whitespace character.
\<close>

fun spaceless :: "pyval \<Rightarrow> bool" where
  "spaceless (PStr s) = (CHR '' '' \<notin> set s)"
| "spaceless (PFloat r) = ws_free r"
| "spaceless (PDict kvs) = list_all (\<lambda>kv. spaceless (fst kv) \<and> spaceless (snd kv)) kvs"
| "spaceless (PList xs) = list_all spaceless xs"
| "spaceless (PTuple xs) = list_all spaceless xs"
| "spaceless (PSet xs) = list_all spaceless xs"
| "spaceless x = True"

fun json_spaceless :: "json \<Rightarrow> bool" where
  "json_spaceless (JStr s) = (CHR '' '' \<notin> set s)"
| "json_spaceless (JFloat r) = ws_free r"
| "json_spaceless (JArr xs) = list_all json_spaceless xs"
| "json_spaceless (JObj kvs) = list_all (\<lambda>kv. CHR '' '' \<notin> set (fst kv) \<and> json_spaceless (snd kv)) kvs"
| "json_spaceless j = True"

text \<open>The text of a JSON object whose items are written in the given order.\<close>

definition object_text :: "(string \<times> json) list \<Rightarrow> string" where
  "object_text items =
     ''{'' @ join '','' (map (\<lambda>kv. encode_basestring (fst kv) @ '':'' @ json_dumps (snd kv)) items)
      @ ''}''"

text \<open>The same mapping written in two key orders.\<close>

definition dict_ab :: "(pyval \<times> pyval) list" where
  "dict_ab = [(PStr ''b'', PInt 2), (PStr ''a'', PList [PBool True, PNone])]"

definition dict_ba :: "(pyval \<times> pyval) list" where
  "dict_ba = [(PStr ''a'', PList [PBool True, PNone]), (PStr ''b'', PInt 2)]"

text \<open>The envelope of \<^verbatim>\<open>canonical_fingerprint\<close> in the order in which its keys are written.\<close>

definition envelope :: "string \<Rightarrow> string \<Rightarrow> string \<Rightarrow> string \<Rightarrow> string \<Rightarrow> (string \<times> json) list" where
  "envelope version kind namespace scope canonical =
     [(''kind'', JStr kind), (''namespace'', JStr namespace), (''payload'', JStr canonical),
      (''scope'', JStr scope), (''version'', JStr version)]"

text \<open>The parent edges of a store: \<open>(c, p)\<close> when \<open>p\<close> is a parent of the commit \<open>c\<close>.\<close>

definition parent_rel :: "LineageStore \<Rightarrow> (string \<times> string) set" where
  "parent_rel s = {(c, p). \<exists>k. map_of (commits s) c = Some k \<and> p \<in> set (parents k)}"

text \<open>
  The commit dictionary lists every commit once, under its own id, after all of its
  parents; \<open>seen\<close> holds the ids listed before.
\<close>

fun lineage_ok :: "string set \<Rightarrow> (string \<times> Commit) list \<Rightarrow> bool" where
  "lineage_ok seen [] = True"
| "lineage_ok seen (kc # cs) =
     (fst kc \<notin> seen \<and> commit_id (snd kc) = fst kc \<and> set (parents (snd kc)) \<subseteq> seen
      \<and> lineage_ok (insert (fst kc) seen) cs)"

definition store_ok :: "LineageStore \<Rightarrow> bool" where
  "store_ok s = (lineage_ok {} (commits s) \<and> fst ` set (children s) \<subseteq> fst ` set (commits s))"

text \<open>
  The stores that calls of \<^verbatim>\<open>append\<close> build from the empty store, each call drawing an
  id that no stored commit has.
\<close>

inductive reachable :: "LineageStore \<Rightarrow> bool" where
  start: "reachable empty_store"
| step: "reachable s \<Longrightarrow> \<not> exists s cid \<Longrightarrow>
         append cid ts s ps operation sid skind snamespace sscope pl nt = (r, s') \<Longrightarrow>
         reachable s'"

text \<open>The position of an id in the commit dictionary.\<close>

definition rank :: "(string \<times> Commit) list \<Rightarrow> string \<Rightarrow> nat" where
  "rank cs k = length (takeWhile (\<lambda>kc. fst kc \<noteq> k) cs)"

text \<open>
  Example stores: \<open>add\<close> is one call of \<^verbatim>\<open>append\<close> with the id and clock reading it
  draws; only the store it leaves is kept.
\<close>

definition add ::
  "string \<Rightarrow> int \<Rightarrow> string list \<Rightarrow> string \<Rightarrow> (pyval \<times> pyval) list \<Rightarrow> LineageStore \<Rightarrow> LineageStore" where
  "add cid ts ps sid pl s =
     snd (append cid ts s ps ''add'' sid ''motif'' ''demo'' ''global'' (Some pl) [])"

text \<open>A genesis \<open>G\<close>, two children \<open>A\<close> and \<open>B\<close> of it, and a merge \<open>M\<close> of the two.\<close>

definition genesis_store :: LineageStore where
  "genesis_store = add ''G'' 1 [] ''sg'' [] empty_store"

definition diamond_store :: LineageStore where
  "diamond_store =
     add ''M'' 4 [''A'', ''B''] ''sm'' []
       (add ''B'' 3 [''G''] ''sb'' [] (add ''A'' 2 [''G''] ''sa'' [] genesis_store))"











text \<open>
  Two geneses with the subjects \<open>A\<close> and \<open>B\<close>, and two merge commits \<open>L\<close> and \<open>R\<close> of
  them with the subjects \<open>X\<close> and \<open>Y\<close>.
\<close>

definition two_merge_store :: LineageStore where
  "two_merge_store =
     add ''R'' 4 [''G1'', ''G2''] ''Y'' []
       (add ''L'' 3 [''G1'', ''G2''] ''X'' []
         (add ''G2'' 2 [] ''B'' [] (add ''G1'' 1 [] ''A'' [] empty_store)))"

text \<open>The key that \<^verbatim>\<open>_pick_base\<close> compares for a stored commit id.\<close>

definition base_key :: "LineageStore \<Rightarrow> string \<Rightarrow> int \<times> string" where
  "base_key s cid = (case map_of (commits s) cid of None \<Rightarrow> (0, cid) | Some c \<Rightarrow> (timestamp_ms c, cid))"

section \<open>Properties of the canonical encoder\<close>


lemma collect_map_Inr: "collect (map Inr xs) = Inr xs"
  by (induction xs) auto

lemma collect_InrD: "collect rs = Inr xs \<Longrightarrow> rs = map Inr xs"
proof (induction rs arbitrary: xs)
  case Nil
  then show ?case by auto
next
  case (Cons r rs)
  then show ?case by (cases r) (auto split: sum.splits)
qed

lemma collect_Inr_iff: "collect rs = Inr xs \<longleftrightarrow> rs = map Inr xs"
  using collect_map_Inr collect_InrD by blast

lemma collect_Inl_mem: "collect rs = Inl e \<Longrightarrow> Inl e \<in> set rs"
proof (induction rs)
  case Nil
  then show ?case by simp
next
  case (Cons r rs)
  then show ?case by (cases r) (auto split: sum.splits)
qed

lemma collect_cases:
  obtains (fail) e where "collect rs = Inl e" "Inl e \<in> set rs"
        | (ok) xs where "collect rs = Inr xs" "rs = map Inr xs"
  by (cases "collect rs") (auto simp: collect_Inr_iff dest: collect_Inl_mem)

lemma normalize_error: "normalize x = Inl e \<Longrightarrow> e = CanonicalizationError"
proof (induction x rule: normalize.induct)
  case (6 kvs)
  from "6.prems" obtain e' where "collect (map (\<lambda>kv. case fst kv of
                                 PStr k \<Rightarrow> (case normalize (snd kv) of
                                              Inl e \<Rightarrow> Inl e
                                            | Inr j \<Rightarrow> Inr (k, j))
                               | _ \<Rightarrow> Inl CanonicalizationError) kvs) = Inl e" 
    by (auto split: sum.splits)
  from collect_Inl_mem [OF this] obtain kv where kv: "kv \<in> set kvs" 
    "(case fst kv of
                                 PStr k \<Rightarrow> (case normalize (snd kv) of
                                              Inl e \<Rightarrow> Inl e
                                            | Inr j \<Rightarrow> Inr (k, j))
                               | _ \<Rightarrow> Inl CanonicalizationError) = Inl e" by auto
  show ?case
  proof (cases "fst kv")
    case (PStr k)
    with kv "6.IH" [of kv k] show ?thesis by (auto split: sum.splits)
  qed (use kv in auto)
next
  case (7 xs)
  then show ?case by (auto split: sum.splits dest!: collect_Inl_mem)
next
  case (8 xs)
  then show ?case by (auto split: sum.splits dest!: collect_Inl_mem)
next
  case (9 xs)
  then show ?case by (auto split: sum.splits dest!: collect_Inl_mem)
qed auto

lemma fold_update_fresh:
  "distinct (map fst items) \<Longrightarrow> fst ` set items \<inter> fst ` set acc = {} \<Longrightarrow>
   fold (\<lambda>kv out. AList.update (fst kv) (snd kv) out) items acc = acc @ items"
proof (induction items arbitrary: acc)
  case Nil
  then show ?case by simp
next
  case (Cons kv items)
  have "fst kv \<notin> fst ` set acc" using Cons.prems by auto
  then have u: "AList.update (fst kv) (snd kv) acc = acc @ [kv]"
    by (induction acc) auto
  have "fold (\<lambda>kv out. AList.update (fst kv) (snd kv) out) items (acc @ [kv]) = (acc @ [kv]) @ items"
    using Cons.prems by (intro Cons.IH) auto
  with u show ?case by simp
qed

lemma dict_of_items_distinct: "distinct (map fst items) \<Longrightarrow> dict_of_items items = items"
  using fold_update_fresh [of items "[]"] by (simp add: dict_of_items_def)

lemma sort_key_fst_unique:
  assumes "distinct (map fst as)" "distinct (map fst bs)" "set as = set bs"
  shows "sort_key fst as = sort_key fst bs"
proof (rule map_sorted_distinct_set_unique [where f = fst])
  from assms(1) have inj: "inj_on fst (set as)" by (simp add: distinct_map)
  with assms(3) show "inj_on fst (set (sort_key fst as) \<union> set (sort_key fst bs))" by simp
  show "sorted (map fst (sort_key fst as))" "sorted (map fst (sort_key fst bs))"
    by (rule sorted_sort_key)+
  from assms(1) show "distinct (map fst (sort_key fst as))" by (simp add: distinct_map)
  from assms(2) show "distinct (map fst (sort_key fst bs))" by (simp add: distinct_map)
  from assms(3) show "set (sort_key fst as) = set (sort_key fst bs)" by simp
qed

lemma normalize_PDict:
  "normalize (PDict kvs) =
     (case collect (map dict_item kvs) of
        Inl e \<Rightarrow> Inl e
      | Inr items \<Rightarrow> Inr (JObj (dict_of_items items)))"
  unfolding dict_item_def by simp

lemma dict_item_error: "dict_item kv = Inl e \<Longrightarrow> e = CanonicalizationError"
  by (auto simp: dict_item_def split: pyval.splits sum.splits dest: normalize_error)

lemma dict_item_key: "dict_item kv = Inr (k, j) \<Longrightarrow> fst kv = PStr k \<and> normalize (snd kv) = Inr j"
  by (auto simp: dict_item_def split: pyval.splits sum.splits)

lemma collect_map_cases:
  obtains (fail) x e where "x \<in> set xs" "f x = Inl e" "collect (map f xs) = Inl e"
        | (ok) ys where "collect (map f xs) = Inr ys" "map f xs = map Inr ys"
proof (cases "collect (map f xs)")
  case (Inl e)
  from collect_Inl_mem [OF this] obtain x where "x \<in> set xs" "f x = Inl e" by auto
  with Inl fail show ?thesis by blast
next
  case (Inr ys)
  with ok collect_InrD show ?thesis by blast
qed

lemma collect_map_all_ok:
  assumes "\<And>x. x \<in> set xs \<Longrightarrow> \<exists>y. f x = Inr y"
  shows "collect (map f xs) = Inr (map (projr \<circ> f) xs)"
proof -
  have "f x = Inr (projr (f x))" if "x \<in> set xs" for x
    using assms [OF that] by auto
  then have "map f xs = map Inr (map (projr \<circ> f) xs)"
    by (induction xs) auto
  then show ?thesis by (simp add: collect_Inr_iff)
qed

lemma normalize_PDict_perm:
  assumes dx: "distinct (map fst xs)" and dy: "distinct (map fst ys)" and eq: "set xs = set ys"
  shows "normalize (PDict xs) = Inl CanonicalizationError \<and> normalize (PDict ys) = Inl CanonicalizationError
       \<or> (\<exists>ix iy. normalize (PDict xs) = Inr (JObj ix) \<and> normalize (PDict ys) = Inr (JObj iy)
            \<and> distinct (map fst ix) \<and> distinct (map fst iy) \<and> set ix = set iy)"
proof (cases "\<forall>kv \<in> set xs. \<exists>y. dict_item kv = Inr y")
  case False
  then obtain kv e where kv: "kv \<in> set xs" "dict_item kv = Inl e"
    by (metis sum.exhaust_sel sum.collapse(1) old.sum.exhaust)
  have "\<And>zs. kv \<in> set zs \<Longrightarrow> normalize (PDict zs) = Inl CanonicalizationError"
  proof -
    fix zs assume "kv \<in> set zs"
    have "\<not> (\<exists>items. map dict_item zs = map Inr items)"
    proof
      assume "\<exists>items. map dict_item zs = map Inr items"
      then obtain items where "map dict_item zs = map Inr items" ..
      then have "set (map dict_item zs) = set (map Inr items)" by simp
      with \<open>kv \<in> set zs\<close> have "dict_item kv \<in> Inr ` set items" by auto
      with kv(2) show False by auto
    qed
    then obtain e' where "collect (map dict_item zs) = Inl e'"
      by (metis collect_InrD sum.exhaust_sel old.sum.exhaust)
    moreover from collect_Inl_mem [OF this] have "e' = CanonicalizationError"
      by (auto dest: dict_item_error [OF sym])
    ultimately show "normalize (PDict zs) = Inl CanonicalizationError"
      by (subst normalize_PDict) simp
  qed
  with kv(1) eq show ?thesis by auto
next
  case True
  define g where "g = projr \<circ> dict_item"
  have cx: "collect (map dict_item xs) = Inr (map g xs)"
    unfolding g_def using True by (intro collect_map_all_ok) auto
  have cy: "collect (map dict_item ys) = Inr (map g ys)"
    unfolding g_def using True eq by (intro collect_map_all_ok) auto
  have key: "fst kv = PStr (fst (g kv))" if "kv \<in> set xs" for kv
  proof -
    from True that obtain y where "dict_item kv = Inr y" by blast
    then show ?thesis using dict_item_key [of kv "fst y" "snd y"] by (simp add: g_def)
  qed
  have inj: "inj_on (fst \<circ> g) (set xs)"
  proof (rule inj_onI)
    fix a b assume ab: "a \<in> set xs" "b \<in> set xs" "(fst \<circ> g) a = (fst \<circ> g) b"
    then have "fst a = fst b" using key [of a] key [of b] by simp
    with dx ab(1,2) show "a = b" by (meson distinct_map inj_onD)
  qed
  have "distinct xs" "distinct ys" using dx dy by (auto simp: distinct_map)
  then have d1: "distinct (map fst (map g xs))" and d2: "distinct (map fst (map g ys))"
    using inj eq by (simp_all add: distinct_map)
  have "normalize (PDict xs) = Inr (JObj (map g xs))"
    by (subst normalize_PDict) (simp add: cx dict_of_items_distinct [OF d1])
  moreover have "normalize (PDict ys) = Inr (JObj (map g ys))"
    by (subst normalize_PDict) (simp add: cy dict_of_items_distinct [OF d2])
  moreover have "set (map g xs) = set (map g ys)" using eq by simp
  ultimately show ?thesis using d1 d2 by blast
qed

lemma key_order_insensitive:
  assumes "distinct (map fst xs)" "distinct (map fst ys)" "set xs = set ys"
  shows "canonicalize_payload (PDict xs) = canonicalize_payload (PDict ys)"
  using normalize_PDict_perm [OF assms]
  by (auto simp: canonicalize_payload_def dest: sort_key_fst_unique)


lemma set_fold_update_subset:
  "set (fold (\<lambda>kv out. AList.update (fst kv) (snd kv) out) items acc) \<subseteq> set items \<union> set acc"
proof (induction items arbitrary: acc)
  case Nil
  then show ?case by simp
next
  case (Cons kv items)
  have "set (AList.update (fst kv) (snd kv) acc) \<subseteq> insert kv (set acc)"
    by (induction acc) auto
  with Cons [of "AList.update (fst kv) (snd kv) acc"] show ?case by auto
qed

lemma distinct_fold_update:
  "distinct (map fst acc) \<Longrightarrow>
   distinct (map fst (fold (\<lambda>kv out. AList.update (fst kv) (snd kv) out) items acc))"
  by (induction items arbitrary: acc) (auto simp: distinct_update)

lemma set_dict_of_items: "set (dict_of_items items) \<subseteq> set items"
  using set_fold_update_subset [of items "[]"] by (simp add: dict_of_items_def)

lemma distinct_dict_of_items: "distinct (map fst (dict_of_items items))"
  using distinct_fold_update [of "[]" items] by (simp add: dict_of_items_def)

lemma normalize_json_id: "json_keys_distinct j \<Longrightarrow> normalize_json j = j"
proof (induction j rule: normalize_json.induct)
  case (1 kvs)
  have "map (\<lambda>kv. (fst kv, normalize_json (snd kv))) kvs = kvs"
    using 1 by (intro map_idI) (auto simp: list_all_iff)
  with 1 show ?case by (simp add: dict_of_items_distinct)
next
  case (2 xs)
  then show ?case by (auto simp: list_all_iff intro: map_idI)
qed auto

lemma normalize_keys_distinct: "normalize x = Inr j \<Longrightarrow> json_keys_distinct j"
proof (induction x arbitrary: j rule: normalize.induct)
  case (6 kvs)
  from "6.prems" obtain items where c: "collect (map dict_item kvs) = Inr items"
    and j: "j = JObj (dict_of_items items)"
    by (subst (asm) normalize_PDict) (auto split: sum.splits)
  have "json_keys_distinct (snd it)" if "it \<in> set items" for it
  proof -
    from c have "map dict_item kvs = map Inr items" by (rule collect_InrD)
    then have "Inr ` set items = dict_item ` set kvs" by (metis set_map)
    with that obtain kv where kv: "kv \<in> set kvs" "dict_item kv = Inr it" by (metis imageE imageI)
    then have "fst kv = PStr (fst it)" "normalize (snd kv) = Inr (snd it)"
      using dict_item_key [of kv "fst it" "snd it"] by auto
    with "6.IH" [OF kv(1)] show ?thesis by blast
  qed
  with set_dict_of_items [of items] show ?case
    by (auto simp: j distinct_dict_of_items list_all_iff)
next
  case (7 xs)
  from "7.prems" obtain items where c: "collect (map normalize xs) = Inr items" and j: "j = JArr items"
    by (auto split: sum.splits)
  from c have m: "map normalize xs = map Inr items" by (rule collect_InrD)
  have "json_keys_distinct it" if "it \<in> set items" for it
  proof -
    from m have "Inr ` set items = normalize ` set xs" by (metis set_map)
    with that obtain x where "x \<in> set xs" "normalize x = Inr it" by (metis imageE imageI)
    with "7.IH" show ?thesis by blast
  qed
  then show ?case by (simp add: j list_all_iff)
next
  case (8 xs)
  from "8.prems" obtain items where c: "collect (map normalize xs) = Inr items" and j: "j = JArr items"
    by (auto split: sum.splits)
  from c have m: "map normalize xs = map Inr items" by (rule collect_InrD)
  have "json_keys_distinct it" if "it \<in> set items" for it
  proof -
    from m have "Inr ` set items = normalize ` set xs" by (metis set_map)
    with that obtain x where "x \<in> set xs" "normalize x = Inr it" by (metis imageE imageI)
    with "8.IH" show ?thesis by blast
  qed
  then show ?case by (simp add: j list_all_iff)
next
  case (9 xs)
  then show ?case by (auto split: sum.splits simp: list_all_iff)
qed auto

lemma canonicalize_json_normalized:
  "normalize x = Inr j \<Longrightarrow> canonicalize_json j = json_dumps j"
  by (simp add: canonicalize_json_def normalize_json_id normalize_keys_distinct)

lemma collect_canonicalize:
  "collect (map canonicalize_payload xs) =
     (case collect (map normalize xs) of Inl e \<Rightarrow> Inl e | Inr items \<Rightarrow> Inr (map json_dumps items))"
proof (induction xs)
  case Nil
  then show ?case by simp
next
  case (Cons x xs)
  then show ?case
    by (cases "normalize x") (auto simp: canonicalize_payload_def split: sum.splits)
qed

lemma set_encoding:
  "canonicalize_payload (PSet xs) =
     (case collect (map canonicalize_payload xs) of
        Inl e \<Rightarrow> Inl e
      | Inr ss \<Rightarrow> canonicalize_payload (PList (map PStr (sort ss))))"
proof (cases "collect (map normalize xs)")
  case (Inl e)
  then show ?thesis by (simp add: canonicalize_payload_def collect_canonicalize)
next
  case (Inr items)
  then have m: "map normalize xs = map Inr items" by (rule collect_InrD)
  have "canonicalize_json it = json_dumps it" if "it \<in> set items" for it
  proof -
    from m have "Inr ` set items = normalize ` set xs" by (metis set_map)
    with that obtain x where "normalize x = Inr it" by (metis imageE imageI)
    then show ?thesis by (rule canonicalize_json_normalized)
  qed
  then have e: "map canonicalize_json items = map json_dumps items" by simp
  have "collect (map normalize (map PStr ss)) = Inr (map JStr ss)" for ss
    by (induction ss) auto
  then have "normalize (PList (map PStr ss)) = Inr (JArr (map JStr ss))" for ss
    by simp
  then show ?thesis using Inr
    by (simp add: canonicalize_payload_def collect_canonicalize e del: normalize.simps(7))
qed

lemma fingerprint_cong:
  "canonicalize_payload p = canonicalize_payload q \<Longrightarrow>
   canonical_fingerprint H kind ns p scope ver = canonical_fingerprint H kind ns q scope ver"
  by (simp add: canonical_fingerprint_def)

text \<open>
  C10: the canonical encoding is not injective. A set is encoded as the list of the
  canonical strings of its elements, sorted, so it has the encoding of that list of
  strings: the set \<open>{1}\<close> and the list \<open>["1"]\<close> are different values with the same
  canonical string \<open>["1"]\<close>, and two payloads that differ only in this way have the
  same fingerprint, whatever the hash, kind, namespace, scope and version are.
\<close>

theorem canonicalize_not_injective:
  "canonicalize_payload (PSet xs) =
     (case collect (map canonicalize_payload xs) of
        Inl e \<Rightarrow> Inl e
      | Inr ss \<Rightarrow> canonicalize_payload (PList (map PStr (sort ss))))
   \<and> PSet [PInt 1] \<noteq> PList [PStr ''1'']
   \<and> canonicalize_payload (PSet [PInt 1]) = Inr [CHR ''['', CHR 0x22, CHR ''1'', CHR 0x22, CHR '']'']
   \<and> canonicalize_payload (PList [PStr ''1'']) = Inr [CHR ''['', CHR 0x22, CHR ''1'', CHR 0x22, CHR '']'']
   \<and> canonical_fingerprint H kind ns (PDict [(PStr ''tags'', PSet [PInt 1])]) scope ver
       = canonical_fingerprint H kind ns (PDict [(PStr ''tags'', PList [PStr ''1''])]) scope ver"
proof -
  have a: "canonicalize_payload (PSet [PInt 1]) = Inr [CHR ''['', CHR 0x22, CHR ''1'', CHR 0x22, CHR '']'']"
    by code_simp
  have b: "canonicalize_payload (PList [PStr ''1'']) = Inr [CHR ''['', CHR 0x22, CHR ''1'', CHR 0x22, CHR '']'']"
    by code_simp
  have "normalize (PSet [PInt 1]) = normalize (PList [PStr ''1''])" by code_simp
  then have "canonicalize_payload (PDict [(PStr ''tags'', PSet [PInt 1])])
           = canonicalize_payload (PDict [(PStr ''tags'', PList [PStr ''1''])])"
    by (simp add: canonicalize_payload_def)
  then have "canonical_fingerprint H kind ns (PDict [(PStr ''tags'', PSet [PInt 1])]) scope ver
       = canonical_fingerprint H kind ns (PDict [(PStr ''tags'', PList [PStr ''1''])]) scope ver"
    by (rule fingerprint_cong)
  with a b set_encoding [of xs] show ?thesis by (simp only: pyval.distinct simp_thms)
qed

theorem canonicalize_not_injective_witness:
  "canonicalize_payload (PSet [PInt 2, PInt 1]) =
     (case collect (map canonicalize_payload [PInt 2, PInt 1]) of
        Inl e \<Rightarrow> Inl e
      | Inr ss \<Rightarrow> canonicalize_payload (PList (map PStr (sort ss))))
   \<and> PSet [PInt 1] \<noteq> PList [PStr ''1'']
   \<and> canonicalize_payload (PSet [PInt 1]) = Inr [CHR ''['', CHR 0x22, CHR ''1'', CHR 0x22, CHR '']'']
   \<and> canonicalize_payload (PList [PStr ''1'']) = Inr [CHR ''['', CHR 0x22, CHR ''1'', CHR 0x22, CHR '']'']
   \<and> canonical_fingerprint toy_hash ''motif'' ''demo'' (PDict [(PStr ''tags'', PSet [PInt 1])]) ''global'' ''v1''
       = canonical_fingerprint toy_hash ''motif'' ''demo'' (PDict [(PStr ''tags'', PList [PStr ''1''])]) ''global'' ''v1''"
  by (rule canonicalize_not_injective)

lemma digit_char_not_ws: "\<not> is_ws (digit_char n)"
proof -
  have "n mod 16 < length ''0123456789abcdef''" by simp
  then have "digit_char n \<in> set ''0123456789abcdef''"
    unfolding digit_char_def by (rule nth_mem)
  then show ?thesis by (auto simp: is_ws_def)
qed

lemma ws_free_append [simp]: "ws_free (a @ b) \<longleftrightarrow> ws_free a \<and> ws_free b"
  by (simp add: ws_free_def)

lemma ws_free_Cons [simp]: "ws_free (c # s) \<longleftrightarrow> \<not> is_ws c \<and> ws_free s"
  by (simp add: ws_free_def)

lemma ws_free_Nil [simp]: "ws_free []"
  by (simp add: ws_free_def)

lemma nat_repr_ws_free: "ws_free (nat_repr n)"
proof (induction n rule: nat_repr.induct)
  case (1 n)
  then show ?case by (subst nat_repr.simps) (simp add: digit_char_not_ws)
qed

lemma int_repr_ws_free: "ws_free (int_repr i)"
  by (simp add: int_repr_def nat_repr_ws_free is_ws_def)

lemma escape_char_ws_free:
  assumes "c \<noteq> CHR '' ''"
  shows "ws_free (escape_char c)"
proof -
  have lit: "\<not> is_ws (CHR 0x5C)" "\<not> is_ws (CHR 0x22)" "\<not> is_ws CHR ''b''" "\<not> is_ws CHR ''f''"
    "\<not> is_ws CHR ''n''" "\<not> is_ws CHR ''r''" "\<not> is_ws CHR ''t''" "\<not> is_ws CHR ''u''"
    "\<not> is_ws CHR ''0''"
    by (simp_all add: is_ws_def)
  have self: "\<not> is_ws c" if "c \<noteq> CHR 0x09" "c \<noteq> CHR 0x0A" "c \<noteq> CHR 0x0D"
    using assms that by (simp add: is_ws_def)
  show ?thesis unfolding escape_char_def by (simp add: lit self digit_char_not_ws)
qed

lemma encode_basestring_ws_free: "CHR '' '' \<notin> set s \<Longrightarrow> ws_free (encode_basestring s)"
proof -
  assume a: "CHR '' '' \<notin> set s"
  have "ws_free (concat (map escape_char t))" if "CHR '' '' \<notin> set t" for t
    using that by (induction t) (auto simp: escape_char_ws_free)
  with a show ?thesis by (simp add: encode_basestring_def is_ws_def)
qed

lemma join_ws_free: "ws_free sep \<Longrightarrow> list_all ws_free parts \<Longrightarrow> ws_free (join sep parts)"
  by (induction sep parts rule: join.induct) auto

lemma json_dumps_ws_free: "json_spaceless j \<Longrightarrow> ws_free (json_dumps j)"
proof (induction j rule: json_dumps.induct)
  case (6 xs)
  then have "list_all ws_free (map json_dumps xs)" by (auto simp: list_all_iff)
  then show ?case by (simp add: join_ws_free is_ws_def)
next
  case (7 kvs)
  then have "list_all ws_free (map (\<lambda>kv. encode_basestring (fst kv) @ '':'' @ json_dumps (snd kv)) (sort_key fst kvs))"
    by (auto simp: list_all_iff encode_basestring_ws_free is_ws_def)
  then show ?case by (simp add: join_ws_free is_ws_def)
qed (auto simp: int_repr_ws_free encode_basestring_ws_free is_ws_def)

lemma normalize_json_spaceless: "json_spaceless j \<Longrightarrow> json_spaceless (normalize_json j)"
proof (induction j rule: normalize_json.induct)
  case (1 kvs)
  have "set (dict_of_items (map (\<lambda>kv. (fst kv, normalize_json (snd kv))) kvs))
          \<subseteq> (\<lambda>kv. (fst kv, normalize_json (snd kv))) ` set kvs"
    using set_dict_of_items [of "map (\<lambda>kv. (fst kv, normalize_json (snd kv))) kvs"] by simp
  with 1 show ?case by (fastforce simp: list_all_iff)
next
  case (2 xs)
  then show ?case by (auto simp: list_all_iff)
qed auto

lemma ws_free_no_space: "ws_free s \<Longrightarrow> CHR '' '' \<notin> set s"
  by (auto simp: ws_free_def list_all_iff is_ws_def)

lemma collect_InrD_mem:
  assumes "collect (map f xs) = Inr ys" "y \<in> set ys"
  obtains x where "x \<in> set xs" "f x = Inr y"
proof -
  from assms(1) have "map f xs = map Inr ys" by (rule collect_InrD)
  then have "Inr ` set ys = f ` set xs" by (metis set_map)
  with assms(2) that show ?thesis by (metis imageE imageI)
qed

lemma normalize_spaceless: "spaceless x \<Longrightarrow> normalize x = Inr j \<Longrightarrow> json_spaceless j"
proof (induction x arbitrary: j rule: normalize.induct)
  case (6 kvs)
  from "6.prems"(2) obtain items where c: "collect (map dict_item kvs) = Inr items"
    and j: "j = JObj (dict_of_items items)"
    by (subst (asm) normalize_PDict) (auto split: sum.splits)
  have "CHR '' '' \<notin> set (fst it) \<and> json_spaceless (snd it)" if "it \<in> set items" for it
  proof -
    from c that obtain kv where kv: "kv \<in> set kvs" "dict_item kv = Inr it"
      by (rule collect_InrD_mem)
    then have k: "fst kv = PStr (fst it)" "normalize (snd kv) = Inr (snd it)"
      using dict_item_key [of kv "fst it" "snd it"] by auto
    from "6.prems"(1) kv(1) have "spaceless (fst kv)" "spaceless (snd kv)"
      by (auto simp: list_all_iff)
    with "6.IH" [OF kv(1) k(1) _ k(2)] k(1) show ?thesis by simp
  qed
  with set_dict_of_items [of items] show ?case
    by (auto simp: j list_all_iff)
next
  case (7 xs)
  from "7.prems" obtain items where c: "collect (map normalize xs) = Inr items" and j: "j = JArr items"
    by (auto split: sum.splits)
  have "json_spaceless it" if "it \<in> set items" for it
  proof -
    from c that obtain x where "x \<in> set xs" "normalize x = Inr it" by (rule collect_InrD_mem)
    with "7.IH" "7.prems"(1) show ?thesis by (auto simp: list_all_iff)
  qed
  then show ?case by (simp add: j list_all_iff)
next
  case (8 xs)
  from "8.prems" obtain items where c: "collect (map normalize xs) = Inr items" and j: "j = JArr items"
    by (auto split: sum.splits)
  have "json_spaceless it" if "it \<in> set items" for it
  proof -
    from c that obtain x where "x \<in> set xs" "normalize x = Inr it" by (rule collect_InrD_mem)
    with "8.IH" "8.prems"(1) show ?thesis by (auto simp: list_all_iff)
  qed
  then show ?case by (simp add: j list_all_iff)
next
  case (9 xs)
  from "9.prems" obtain items where c: "collect (map normalize xs) = Inr items"
    and j: "j = JArr (map JStr (sort (map canonicalize_json items)))"
    by (auto split: sum.splits)
  have "CHR '' '' \<notin> set (canonicalize_json it)" if "it \<in> set items" for it
  proof -
    from c that obtain x where "x \<in> set xs" "normalize x = Inr it" by (rule collect_InrD_mem)
    with "9.IH" "9.prems"(1) have "json_spaceless it" by (auto simp: list_all_iff)
    then show ?thesis
      unfolding canonicalize_json_def
      by (intro ws_free_no_space json_dumps_ws_free normalize_json_spaceless)
  qed
  then show ?case by (auto simp: j list_all_iff)
qed auto

lemma canonical_ws_free:
  "spaceless x \<Longrightarrow> canonicalize_payload x = Inr out \<Longrightarrow> ws_free out"
  by (auto simp: canonicalize_payload_def split: sum.splits
           dest: normalize_spaceless json_dumps_ws_free)

lemma dict_item_Inr_iff:
  "dict_item kv = Inr it \<longleftrightarrow> fst kv = PStr (fst it) \<and> normalize (snd kv) = Inr (snd it)"
  by (cases it) (auto simp: dict_item_def split: pyval.splits sum.splits)

lemma normalize_PDict_items:
  assumes d: "distinct (map fst xs)" and n: "normalize (PDict xs) = Inr j"
  shows "\<exists>items. j = JObj items \<and> map fst xs = map (PStr \<circ> fst) items
           \<and> list_all2 (\<lambda>kv it. normalize (snd kv) = Inr (snd it)) xs items"
proof -
  from n obtain items where c: "collect (map dict_item xs) = Inr items"
    and j: "j = JObj (dict_of_items items)"
    by (subst (asm) normalize_PDict) (auto split: sum.splits)
  from c have m: "map dict_item xs = map Inr items" by (rule collect_InrD)
  then have l2: "list_all2 (\<lambda>kv it. dict_item kv = Inr it) xs items"
    by (simp add: list_all2_conv_all_nth list_eq_iff_nth_eq)
  then have keys: "map fst xs = map (PStr \<circ> fst) items"
    by (induction rule: list_all2_induct) (auto simp: dict_item_Inr_iff)
  from l2 have vals: "list_all2 (\<lambda>kv it. normalize (snd kv) = Inr (snd it)) xs items"
    by (rule list_all2_mono) (simp add: dict_item_Inr_iff)
  from d keys have "distinct (map PStr (map fst items))" by simp
  then have "distinct (map fst items)" using distinct_map [of PStr "map fst items"] by blast
  then have "dict_of_items items = items" by (rule dict_of_items_distinct)
  with j keys vals show ?thesis by auto
qed

lemma canonical_dict_sorted:
  assumes d: "distinct (map fst xs)" and c: "canonicalize_payload (PDict xs) = Inr out"
  shows "\<exists>items. sorted (map fst items) \<and> distinct (map fst items)
           \<and> PStr ` fst ` set items = fst ` set xs
           \<and> out = object_text items"
proof -
  from c obtain j where n: "normalize (PDict xs) = Inr j" and out: "out = json_dumps j"
    by (auto simp: canonicalize_payload_def split: sum.splits)
  from normalize_PDict_items [OF d n] obtain items where j: "j = JObj items"
    and keys: "map fst xs = map (PStr \<circ> fst) items" by blast
  from d keys have "distinct (map PStr (map fst items))" by simp
  then have di: "distinct (map fst items)" using distinct_map [of PStr "map fst items"] by blast
  let ?s = "sort_key fst items"
  have "sorted (map fst ?s)" by (rule sorted_sort_key)
  moreover from di have "distinct (map fst ?s)" by (simp add: distinct_map)
  moreover have "PStr ` fst ` set ?s = fst ` set xs"
  proof -
    have "fst ` set xs = set (map fst xs)" by simp
    also have "\<dots> = set (map (PStr \<circ> fst) items)" by (simp only: keys)
    also have "\<dots> = PStr ` fst ` set items" by (simp add: image_comp)
    finally show ?thesis by simp
  qed
  moreover have "out = object_text ?s" by (simp add: out j object_text_def)
  ultimately show ?thesis by blast
qed

text \<open>
  C5: canonical encoding is deterministic and does not depend on the order of the keys
  of a mapping. The encoder is a function of the value. Two dictionaries with the same
  items in different orders have the same canonical string (or both fail). The string of
  a dictionary is a JSON object whose keys are exactly the keys of the dictionary, each
  once, in ascending order. The string contains no whitespace character unless a string
  of the value contains a space.
\<close>

theorem canonicalize_key_order:
  assumes "distinct (map fst xs)" "distinct (map fst ys)" "set xs = set ys"
  shows "canonicalize_payload x = canonicalize_payload x
       \<and> canonicalize_payload (PDict xs) = canonicalize_payload (PDict ys)
       \<and> (\<forall>out. canonicalize_payload (PDict xs) = Inr out \<longrightarrow>
            (\<exists>items. sorted (map fst items) \<and> distinct (map fst items)
               \<and> PStr ` fst ` set items = fst ` set xs
               \<and> out = object_text items))
       \<and> (\<forall>out. spaceless x \<and> canonicalize_payload x = Inr out \<longrightarrow> ws_free out)"
  using key_order_insensitive [OF assms] canonical_dict_sorted [OF assms(1)] canonical_ws_free
  by blast

theorem canonicalize_key_order_witness:
  "distinct (map fst dict_ab) \<and> distinct (map fst dict_ba) \<and> set dict_ab = set dict_ba
   \<and> canonicalize_payload (PDict dict_ab) = canonicalize_payload (PDict dict_ba)
   \<and> canonicalize_payload (PDict dict_ab)
       = Inr (object_text [(''a'', JArr [JBool True, JNull]), (''b'', JInt 2)])
   \<and> spaceless (PDict dict_ab)
   \<and> ws_free (object_text [(''a'', JArr [JBool True, JNull]), (''b'', JInt 2)])"
proof -
  have h: "distinct (map fst dict_ab)" "distinct (map fst dict_ba)" "set dict_ab = set dict_ba"
    by (auto simp: dict_ab_def dict_ba_def)
  have c: "canonicalize_payload (PDict dict_ab)
       = Inr (object_text [(''a'', JArr [JBool True, JNull]), (''b'', JInt 2)])"
    unfolding dict_ab_def by code_simp
  have s: "spaceless (PDict dict_ab)" by (simp add: dict_ab_def)
  from canonicalize_key_order [OF h, of "PDict dict_ab"] c s h show ?thesis by simp
qed

section \<open>Properties of the identity anchor\<close>

lemma material_canonical:
  "canonicalize_payload (material version kind namespace scope canonical)
     = Inr (object_text (envelope version kind namespace scope canonical))"
  by (simp add: canonicalize_payload_def material_def dict_of_items_def object_text_def envelope_def)

lemma length_hexdigest: "length (hexdigest w) = 64"
  by (simp add: hexdigest_def)

text \<open>
  C3, as amended: for every non-empty kind and non-empty namespace, every scope and
  schema version, and every payload that can be canonicalized, the fingerprint is the
  64-digit hexadecimal digest of the 256-bit hash of the UTF-8 bytes of the canonical
  string of the envelope, whose payload field is the canonical string of the payload; the
  anchor that \<^verbatim>\<open>create\<close> builds has this fingerprint as its id, and payloads with the
  same canonical string give the same anchor. With an empty kind or namespace the
  function raises \<^verbatim>\<open>IdentityError\<close> instead.
\<close>

theorem fingerprint_is_hash_of_envelope:
  assumes "kind \<noteq> []" "namespace \<noteq> []" "canonicalize_payload pl = Inr canonical"
  shows "canonicalize_payload (material version kind namespace scope canonical)
           = Inr (object_text (envelope version kind namespace scope canonical))
       \<and> canonical_fingerprint H kind namespace pl scope version
           = Inr (hexdigest (H (utf8_encode (object_text (envelope version kind namespace scope canonical)))))
       \<and> length (hexdigest (H (utf8_encode (object_text (envelope version kind namespace scope canonical))))) = 64
       \<and> create H kind namespace pl scope version
           = Inr \<lparr>anchor_id = hexdigest (H (utf8_encode (object_text (envelope version kind namespace scope canonical)))),
                  anchor_kind = kind, anchor_namespace = namespace, anchor_scope = scope,
                  anchor_version = version\<rparr>
       \<and> (\<forall>pl'. canonicalize_payload pl' = Inr canonical \<longrightarrow>
             create H kind namespace pl' scope version = create H kind namespace pl scope version)"
  using assms
  by (simp add: canonical_fingerprint_def create_def material_canonical blake2b_256_def length_hexdigest)

theorem fingerprint_is_hash_of_envelope_witness:
  "''motif'' \<noteq> [] \<and> ''demo'' \<noteq> []
   \<and> canonicalize_payload (PDict [(PStr ''a'', PInt 1)]) = Inr (object_text [(''a'', JInt 1)])
   \<and> canonical_fingerprint toy_hash ''motif'' ''demo'' (PDict [(PStr ''a'', PInt 1)]) ''global'' ''v1''
       = Inr (hexdigest (toy_hash (utf8_encode (object_text
                (envelope ''v1'' ''motif'' ''demo'' ''global'' (object_text [(''a'', JInt 1)]))))))"
proof -
  have c: "canonicalize_payload (PDict [(PStr ''a'', PInt 1)]) = Inr (object_text [(''a'', JInt 1)])"
    by code_simp
  have k: "''motif'' \<noteq> []" and n: "''demo'' \<noteq> []" by simp_all
  from fingerprint_is_hash_of_envelope [OF k n c, of "''v1''" "''global''" toy_hash] c
  show ?thesis by simp
qed

theorem fingerprint_empty_kind_counterexample:
  "canonicalize_payload (PDict []) = Inr ''{}''
   \<and> canonical_fingerprint toy_hash [] ''demo'' (PDict []) ''global'' ''v1'' = Inl IdentityError"
  by (simp add: canonical_fingerprint_def canonicalize_payload_def dict_of_items_def)

section \<open>Properties of the lineage store\<close>

lemma exists_iff: "exists s cid \<longleftrightarrow> cid \<in> fst ` set (commits s)"
  by (simp add: exists_def map_of_eq_None_iff)

lemma update_fresh: "k \<notin> fst ` set al \<Longrightarrow> AList.update k v al = al @ [(k, v)]"
  by (induction al) auto

lemma lineage_ok_snoc:
  "lineage_ok seen (cs @ [(k, c)]) \<longleftrightarrow>
     lineage_ok seen cs \<and> k \<notin> seen \<union> fst ` set cs \<and> commit_id c = k
     \<and> set (parents c) \<subseteq> seen \<union> fst ` set cs"
  by (induction cs arbitrary: seen) auto

lemma lineage_ok_distinct: "lineage_ok seen cs \<Longrightarrow> distinct (map fst cs) \<and> fst ` set cs \<inter> seen = {}"
  by (induction cs arbitrary: seen) auto

lemma lineage_ok_parent:
  "lineage_ok seen cs \<Longrightarrow> map_of cs k = Some c \<Longrightarrow> p \<in> set (parents c) \<Longrightarrow>
   p \<in> seen \<or> (p \<in> fst ` set cs \<and> rank cs p < rank cs k)"
proof (induction cs arbitrary: seen)
  case Nil
  then show ?case by simp
next
  case (Cons kc cs)
  show ?case
  proof (cases "k = fst kc")
    case True
    with Cons.prems show ?thesis by auto
  next
    case False
    with Cons.prems have m: "map_of cs k = Some c" by (cases kc) auto
    from Cons.prems have ok: "lineage_ok (insert (fst kc) seen) cs" by simp
    from Cons.IH [OF ok m Cons.prems(3)] False show ?thesis
      by (auto simp: rank_def)
  qed
qed

lemma lineage_ok_commit_id: "lineage_ok seen cs \<Longrightarrow> map_of cs k = Some c \<Longrightarrow> commit_id c = k"
  by (induction cs arbitrary: seen) (auto split: if_splits)

lemma map_of_add_child1:
  "map_of (add_child cid p ch) q =
     (if q = p then Some (insert cid (case map_of ch p of None \<Rightarrow> {} | Some S \<Rightarrow> S))
      else map_of ch q)"
  by (simp add: add_child_def update_conv')

lemma map_of_add_child:
  "map_of (fold (add_child cid) ps ch) q =
     (if q \<in> set ps then Some (insert cid (case map_of ch q of None \<Rightarrow> {} | Some S \<Rightarrow> S))
      else map_of ch q)"
proof (induction ps arbitrary: ch)
  case Nil
  then show ?case by simp
next
  case (Cons p ps)
  show ?case
    by (simp add: Cons.IH map_of_add_child1)
qed

lemma dom_add_child: "fst ` set (fold (add_child cid) ps ch) = fst ` set ch \<union> set ps"
  by (induction ps arbitrary: ch) (auto simp: add_child_def dom_update)

lemma map_of_setdefault_empty:
  "map_of (setdefault_empty cid ch) q =
     (if q = cid \<and> map_of ch cid = None then Some {} else map_of ch q)"
  by (auto simp: setdefault_empty_def update_conv' split: option.splits)

lemma dom_setdefault_empty: "fst ` set (setdefault_empty cid ch) = insert cid (fst ` set ch)"
  by (auto simp: setdefault_empty_def dom_update map_of_eq_None_iff split: option.splits
           dest: map_of_SomeD intro: rev_image_eqI)

lemma list_all_exists: "list_all (\<lambda>p. map_of (commits s) p \<noteq> None) ps \<longleftrightarrow> set ps \<subseteq> fst ` set (commits s)"
  by (auto simp: list_all_iff map_of_eq_None_iff)

lemma append_fail:
  "\<not> list_all (exists s) ps \<Longrightarrow>
   append cid ts s ps operation sid skind snamespace sscope pl note = (Inl LineageError, s)"
  by (simp add: append_def list_all_iff exists_def)

lemma append_ok:
  assumes "list_all (exists s) ps"
  shows "append cid ts s ps operation sid skind snamespace sscope pl note =
     (Inr \<lparr>commit_id = cid, timestamp_ms = ts, parents = ps, op = operation,
           subject_id = sid, subject_kind = skind, subject_namespace = snamespace,
           subject_scope = sscope, payload = (case pl of None \<Rightarrow> [] | Some kvs \<Rightarrow> kvs),
           note_text = note\<rparr>,
      \<lparr>commits = AList.update cid
           \<lparr>commit_id = cid, timestamp_ms = ts, parents = ps, op = operation,
            subject_id = sid, subject_kind = skind, subject_namespace = snamespace,
            subject_scope = sscope, payload = (case pl of None \<Rightarrow> [] | Some kvs \<Rightarrow> kvs),
            note_text = note\<rparr> (commits s),
        children = setdefault_empty cid (fold (add_child cid) ps (children s))\<rparr>)"
  using assms by (simp add: append_def list_all_iff exists_def Let_def)

lemma append_store_ok:
  assumes ok: "store_ok s" and fresh: "\<not> exists s cid"
    and app: "append cid ts s ps operation sid skind snamespace sscope pl note = (r, s')"
  shows "store_ok s'"
proof (cases "list_all (exists s) ps")
  case False
  from append_fail [OF False] app ok show ?thesis by simp
next
  case True
  from fresh have f: "cid \<notin> fst ` set (commits s)" by (simp add: exists_iff)
  from True have ps: "set ps \<subseteq> fst ` set (commits s)" by (auto simp: list_all_iff exists_iff)
  from append_ok [OF True] app
  have c: "commits s' = commits s @ [(cid, \<lparr>commit_id = cid, timestamp_ms = ts, parents = ps, op = operation,
            subject_id = sid, subject_kind = skind, subject_namespace = snamespace,
            subject_scope = sscope, payload = (case pl of None \<Rightarrow> [] | Some kvs \<Rightarrow> kvs),
            note_text = note\<rparr>)]"
    and ch: "children s' = setdefault_empty cid (fold (add_child cid) ps (children s))"
    by (auto simp: update_fresh [OF f])
  from ok f ps have "lineage_ok {} (commits s')"
    by (simp add: c lineage_ok_snoc store_ok_def)
  moreover from ok ps have "fst ` set (children s') \<subseteq> fst ` set (commits s')"
    by (auto simp: ch c dom_setdefault_empty dom_add_child store_ok_def)
  ultimately show ?thesis by (simp add: store_ok_def)
qed

lemma reachable_store_ok: "reachable s \<Longrightarrow> store_ok s"
proof (induction rule: reachable.induct)
  case start
  then show ?case by (simp add: store_ok_def empty_store_def)
next
  case (step s cid ts ps operation sid skind snamespace sscope pl nt r s')
  then show ?case using append_store_ok by blast
qed

lemma reachable_add: "reachable s \<Longrightarrow> \<not> exists s cid \<Longrightarrow> reachable (add cid ts ps sid pl s)"
  unfolding add_def by (rule reachable.step [OF _ _ surjective_pairing])

lemma exists_add:
  "exists (add cid ts ps sid pl s) q \<longleftrightarrow> exists s q \<or> (q = cid \<and> list_all (exists s) ps)"
proof (cases "list_all (exists s) ps")
  case True
  then show ?thesis
    by (auto simp: add_def append_ok exists_def update_conv')
next
  case False
  then show ?thesis by (simp add: add_def append_fail)
qed

lemma exists_empty_store: "\<not> exists empty_store q"
  by (simp add: exists_def empty_store_def)

lemma reachable_genesis_store: "reachable genesis_store"
  unfolding genesis_store_def
  by (intro reachable_add reachable.start) (simp add: exists_empty_store)

lemma reachable_diamond_store: "reachable diamond_store"
  unfolding diamond_store_def genesis_store_def
  by (intro reachable_add reachable.start) (simp_all add: exists_add exists_empty_store)

text \<open>
  C4: \<^verbatim>\<open>append\<close> with an unknown parent fails with \<^verbatim>\<open>LineageError\<close> and leaves the
  store as it was. With all parents known and a fresh id, in a store built by
  \<^verbatim>\<open>append\<close>, it returns the new commit, which has that id and the given parents and
  fields; the commit dictionary gains this one item and keeps every other item; each
  parent gains the new id as a child and no other child set changes; the new id is
  registered with an empty child set.
\<close>

theorem append_all_or_nothing:
  "(\<not> list_all (exists s) ps \<longrightarrow>
      append cid ts s ps operation sid skind snamespace sscope pl nt = (Inl LineageError, s))
   \<and> (reachable s \<and> list_all (exists s) ps \<and> \<not> exists s cid \<longrightarrow>
       (\<exists>c s'. append cid ts s ps operation sid skind snamespace sscope pl nt = (Inr c, s')
          \<and> commit_id c = cid \<and> timestamp_ms c = ts \<and> parents c = ps \<and> op c = operation
          \<and> subject_id c = sid \<and> subject_kind c = skind \<and> subject_namespace c = snamespace
          \<and> subject_scope c = sscope \<and> note_text c = nt
          \<and> payload c = (case pl of None \<Rightarrow> [] | Some kvs \<Rightarrow> kvs)
          \<and> commits s' = commits s @ [(cid, c)]
          \<and> (\<forall>q. get s' q = (if q = cid then Inr c else get s q))
          \<and> (\<forall>q. children_of s' q
                  = (if q \<in> set ps then insert cid (children_of s q) else children_of s q))
          \<and> cid \<in> fst ` set (children s')
          \<and> children_of s' cid = {}
          \<and> reachable s'))"
proof (intro conjI impI)
  assume "\<not> list_all (exists s) ps"
  then show "append cid ts s ps operation sid skind snamespace sscope pl nt = (Inl LineageError, s)"
    by (rule append_fail)
next
  assume a: "reachable s \<and> list_all (exists s) ps \<and> \<not> exists s cid"
  then have r: "reachable s" and known: "list_all (exists s) ps" and fresh: "\<not> exists s cid"
    by simp_all
  define c where "c = \<lparr>commit_id = cid, timestamp_ms = ts, parents = ps, op = operation,
           subject_id = sid, subject_kind = skind, subject_namespace = snamespace,
           subject_scope = sscope, payload = (case pl of None \<Rightarrow> [] | Some kvs \<Rightarrow> kvs),
           note_text = nt\<rparr>"
  define s' where "s' = \<lparr>commits = AList.update cid c (commits s),
        children = setdefault_empty cid (fold (add_child cid) ps (children s))\<rparr>"
  have app: "append cid ts s ps operation sid skind snamespace sscope pl nt = (Inr c, s')"
    unfolding c_def s'_def by (rule append_ok [OF known])
  from fresh have f: "cid \<notin> fst ` set (commits s)" by (simp add: exists_iff)
  from known have ps: "set ps \<subseteq> fst ` set (commits s)" by (auto simp: list_all_iff exists_iff)
  from r have ok: "store_ok s" by (rule reachable_store_ok)
  then have chdom: "fst ` set (children s) \<subseteq> fst ` set (commits s)" by (simp add: store_ok_def)
  with f have nochild: "map_of (children s) cid = None" by (auto simp: map_of_eq_None_iff)
  from f ps have notparent: "cid \<notin> set ps" by auto
  have cs: "commits s' = commits s @ [(cid, c)]" by (simp add: s'_def update_fresh [OF f])
  have g: "get s' q = (if q = cid then Inr c else get s q)" for q
    using f by (auto simp: get_def s'_def update_conv' map_of_eq_None_iff)
  have ch: "children_of s' q = (if q \<in> set ps then insert cid (children_of s q) else children_of s q)" for q
    using nochild notparent
    by (auto simp: children_of_def s'_def map_of_setdefault_empty map_of_add_child)
  have reg: "cid \<in> fst ` set (children s')" by (simp add: s'_def dom_setdefault_empty)
  have empty: "children_of s' cid = {}"
    using ch [of cid] notparent nochild by (simp add: children_of_def)
  have r': "reachable s'" by (rule reachable.step [OF r fresh app])
  show "\<exists>c s'. append cid ts s ps operation sid skind snamespace sscope pl nt = (Inr c, s')
          \<and> commit_id c = cid \<and> timestamp_ms c = ts \<and> parents c = ps \<and> op c = operation
          \<and> subject_id c = sid \<and> subject_kind c = skind \<and> subject_namespace c = snamespace
          \<and> subject_scope c = sscope \<and> note_text c = nt
          \<and> payload c = (case pl of None \<Rightarrow> [] | Some kvs \<Rightarrow> kvs)
          \<and> commits s' = commits s @ [(cid, c)]
          \<and> (\<forall>q. get s' q = (if q = cid then Inr c else get s q))
          \<and> (\<forall>q. children_of s' q
                  = (if q \<in> set ps then insert cid (children_of s q) else children_of s q))
          \<and> cid \<in> fst ` set (children s')
          \<and> children_of s' cid = {}
          \<and> reachable s'"
    using app cs g ch reg empty r' by (intro exI [of _ c] exI [of _ s']) (simp add: c_def)
qed

theorem append_all_or_nothing_witness:
  "\<not> list_all (exists genesis_store) [''G'', ''Z'']
   \<and> append ''A'' 2 genesis_store [''G'', ''Z''] ''add'' ''sa'' ''motif'' ''demo'' ''global'' None []
       = (Inl LineageError, genesis_store)
   \<and> reachable genesis_store \<and> list_all (exists genesis_store) [''G''] \<and> \<not> exists genesis_store ''A''
   \<and> (\<exists>c s'. append ''A'' 2 genesis_store [''G''] ''add'' ''sa'' ''motif'' ''demo'' ''global'' None []
                 = (Inr c, s')
          \<and> commit_id c = ''A'' \<and> parents c = [''G'']
          \<and> commits s' = commits genesis_store @ [(''A'', c)]
          \<and> children_of s' ''G'' = insert ''A'' (children_of genesis_store ''G'')
          \<and> children_of s' ''A'' = {})"
proof -
  have e: "exists genesis_store q \<longleftrightarrow> q = ''G''" for q
    by (auto simp: genesis_store_def exists_add exists_empty_store)
  have h1: "\<not> list_all (exists genesis_store) [''G'', ''Z'']" by (simp add: e)
  have h2: "reachable genesis_store \<and> list_all (exists genesis_store) [''G''] \<and> \<not> exists genesis_store ''A''"
    by (simp add: e reachable_genesis_store)
  from append_all_or_nothing [of genesis_store "[''G'', ''Z'']" "''A''" 2 "''add''" "''sa''"
        "''motif''" "''demo''" "''global''" None "[]"] h1
  have a: "append ''A'' 2 genesis_store [''G'', ''Z''] ''add'' ''sa'' ''motif'' ''demo'' ''global'' None []
       = (Inl LineageError, genesis_store)" by blast
  from append_all_or_nothing [of genesis_store "[''G'']" "''A''" 2 "''add''" "''sa''"
        "''motif''" "''demo''" "''global''" None "[]"] h2
  obtain c s' where "append ''A'' 2 genesis_store [''G''] ''add'' ''sa'' ''motif'' ''demo'' ''global'' None []
                 = (Inr c, s')" "commit_id c = ''A''" "parents c = [''G'']"
          "commits s' = commits genesis_store @ [(''A'', c)]"
          "\<forall>q. children_of s' q
                  = (if q \<in> set [''G''] then insert ''A'' (children_of genesis_store q) else children_of genesis_store q)"
          "children_of s' ''A'' = {}" by blast
  then have "\<exists>c s'. append ''A'' 2 genesis_store [''G''] ''add'' ''sa'' ''motif'' ''demo'' ''global'' None []
                 = (Inr c, s')
          \<and> commit_id c = ''A'' \<and> parents c = [''G'']
          \<and> commits s' = commits genesis_store @ [(''A'', c)]
          \<and> children_of s' ''G'' = insert ''A'' (children_of genesis_store ''G'')
          \<and> children_of s' ''A'' = {}" by simp
  with h1 h2 a show ?thesis by blast
qed

section \<open>Properties of the ancestor traversal\<close>

lemma fold_visit_fst: "fst (fold visit ps vs) = fst vs \<union> set ps"
  by (induction ps arbitrary: vs) (auto simp: visit_def)

lemma fold_visit_snd: "set (snd (fold visit ps vs)) = set (snd vs) \<union> (set ps - fst vs)"
  by (induction ps arbitrary: vs) (auto simp: visit_def fold_visit_fst)

lemma parent_rel_exists: "store_ok s \<Longrightarrow> (c, p) \<in> parent_rel s \<Longrightarrow> exists s p"
  using lineage_ok_parent [of "{}" "commits s" c _ p]
  by (auto simp: parent_rel_def store_ok_def exists_iff)

lemma parent_rel_rank:
  "store_ok s \<Longrightarrow> (c, p) \<in> parent_rel s \<Longrightarrow> rank (commits s) p < rank (commits s) c"
  using lineage_ok_parent [of "{}" "commits s" c _ p]
  by (auto simp: parent_rel_def store_ok_def)

lemma parent_trancl_exists: "store_ok s \<Longrightarrow> (c, p) \<in> (parent_rel s)\<^sup>+ \<Longrightarrow> exists s p"
  by (erule tranclE) (auto intro: parent_rel_exists)

lemma parent_trancl_rank:
  assumes "store_ok s" "(c, p) \<in> (parent_rel s)\<^sup>+"
  shows "rank (commits s) p < rank (commits s) c"
  using assms(2)
proof (induction rule: trancl_induct)
  case (base y)
  then show ?case using assms(1) by (rule parent_rel_rank [rotated])
next
  case (step y z)
  from parent_rel_rank [OF assms(1) step.hyps(2)] step.IH show ?case by simp
qed

lemma parent_rel_acyclic: "store_ok s \<Longrightarrow> (c, c) \<notin> (parent_rel s)\<^sup>+"
  using parent_trancl_rank [of s c c] by auto

lemma ancestors_loop_closure:
  assumes ok: "store_ok s" and c0: "exists s c0"
    and i1: "visited \<subseteq> (parent_rel s)\<^sup>+ `` {c0}"
    and i2: "set stack \<subseteq> insert c0 visited"
    and i3: "\<forall>x \<in> insert c0 visited - set stack. parent_rel s `` {x} \<subseteq> visited"
  shows "ancestors_loop (commits s) visited stack = Inr ((parent_rel s)\<^sup>+ `` {c0})"
  using i1 i2 i3
proof (induction "commits s" visited stack rule: ancestors_loop.induct)
  case (1 visited)
  have "p \<in> visited" if "(c0, p) \<in> (parent_rel s)\<^sup>+" for p
    using that
  proof (induction rule: trancl_induct)
    case (base y)
    with "1.prems"(3) show ?case by auto
  next
    case (step y z)
    with "1.prems"(3) show ?case by auto
  qed
  with "1.prems"(1) have "visited = (parent_rel s)\<^sup>+ `` {c0}" by auto
  then show ?case by simp
next
  case (2 visited cur stack)
  from "2.prems"(2) have cur: "cur = c0 \<or> cur \<in> visited" by auto
  with "2.prems"(1) have reach: "cur = c0 \<or> (c0, cur) \<in> (parent_rel s)\<^sup>+" by auto
  with c0 ok have "exists s cur" by (auto intro: parent_trancl_exists)
  then obtain k where k: "map_of (commits s) cur = Some k" by (auto simp: exists_def)
  then have edges: "parent_rel s `` {cur} = set (parents k)"
    by (auto simp: parent_rel_def)
  let ?v = "fst (fold visit (parents k) (visited, stack))"
  let ?st = "snd (fold visit (parents k) (visited, stack))"
  have v: "?v = visited \<union> set (parents k)" by (simp add: fold_visit_fst)
  have st: "set ?st = set stack \<union> (set (parents k) - visited)" by (simp add: fold_visit_snd)
  have n1: "?v \<subseteq> (parent_rel s)\<^sup>+ `` {c0}"
  proof -
    have "p \<in> (parent_rel s)\<^sup>+ `` {c0}" if "p \<in> set (parents k)" for p
    proof -
      from that edges have "(cur, p) \<in> parent_rel s" by auto
      with reach show ?thesis by (auto intro: trancl_into_trancl)
    qed
    with "2.prems"(1) show ?thesis unfolding v by auto
  qed
  have n2: "set ?st \<subseteq> insert c0 ?v" using "2.prems"(2) unfolding v st by auto
  have n3: "\<forall>x \<in> insert c0 ?v - set ?st. parent_rel s `` {x} \<subseteq> ?v"
  proof
    fix x assume x: "x \<in> insert c0 ?v - set ?st"
    show "parent_rel s `` {x} \<subseteq> ?v"
    proof (cases "x = cur")
      case True
      with edges show ?thesis unfolding v by auto
    next
      case False
      from x have "x \<notin> set stack" "x \<in> insert c0 visited" unfolding v st by auto
      with False "2.prems"(3) have "parent_rel s `` {x} \<subseteq> visited" by auto
      then show ?thesis unfolding v by auto
    qed
  qed
  from "2.hyps" [OF k n1 n2 n3] k show ?case by simp
qed

lemma ancestors_of_closure:
  assumes "store_ok s" "exists s c"
  shows "ancestors_of s c = Inr ((parent_rel s)\<^sup>+ `` {c})"
proof -
  have "ancestors_loop (commits s) {} [c] = Inr ((parent_rel s)\<^sup>+ `` {c})"
    using assms by (intro ancestors_loop_closure) auto
  with assms(2) show ?thesis by (simp add: ancestors_of_def exists_def)
qed

lemma ancestors_loop_error: "ancestors_loop cs visited stack = Inl e \<Longrightarrow> e = KeyError"
proof (induction cs visited stack rule: ancestors_loop.induct)
  case (1 cs visited)
  then show ?case by simp
next
  case (2 cs visited cur stack)
  then show ?case by (cases "map_of cs cur") auto
qed

lemma ancestors_of_unknown: "\<not> exists s c \<Longrightarrow> ancestors_of s c = Inl LineageError"
  by (simp add: ancestors_of_def exists_def)

lemma ancestors_of_error: "exists s c \<Longrightarrow> ancestors_of s c = Inl e \<Longrightarrow> e = KeyError"
  by (auto simp: ancestors_of_def exists_def dest: ancestors_loop_error)

lemma parents_of_edges:
  "map_option parents (map_of (commits s) c) = Some ps \<Longrightarrow> parent_rel s `` {c} = set ps"
  by (auto simp: parent_rel_def)

lemma diamond_closure:
  assumes m: "parent_rel s `` {m} = {a, b}" and a: "parent_rel s `` {a} = {g}"
    and b: "parent_rel s `` {b} = {g}" and g: "parent_rel s `` {g} = {}"
  shows "(parent_rel s)\<^sup>+ `` {m} = {g, a, b}"
proof -
  have "p \<in> {g, a, b}" if "(m, p) \<in> (parent_rel s)\<^sup>+" for p
    using that
  proof (induction rule: trancl_induct)
    case (base y)
    with m show ?case by auto
  next
    case (step y z)
    with a b g show ?case by auto
  qed
  moreover from m have ma: "(m, a) \<in> parent_rel s" and mb: "(m, b) \<in> parent_rel s" by auto
  moreover from a have "(a, g) \<in> parent_rel s" by auto
  with ma have "(m, g) \<in> (parent_rel s)\<^sup>+" by auto
  ultimately show ?thesis by auto
qed

text \<open>
  C7: \<^verbatim>\<open>ancestors_of\<close> fails with \<^verbatim>\<open>LineageError\<close> on an id that the store does not
  have. On an id of a store built by \<^verbatim>\<open>append\<close> it returns the transitive closure of the
  parent edges from that id, which does not contain the id itself. In a diamond, where
  \<open>m\<close> has the parents \<open>a\<close> and \<open>b\<close>, each of them the single parent \<open>g\<close>, and \<open>g\<close> none,
  the ancestors of \<open>m\<close> are \<open>g\<close>, \<open>a\<close> and \<open>b\<close>.
\<close>

theorem ancestors_of_transitive_closure:
  "(\<not> exists s cid \<longrightarrow> ancestors_of s cid = Inl LineageError)
   \<and> (reachable s \<and> exists s cid \<longrightarrow>
        ancestors_of s cid = Inr ((parent_rel s)\<^sup>+ `` {cid}) \<and> cid \<notin> (parent_rel s)\<^sup>+ `` {cid})
   \<and> (reachable s
        \<and> map_option parents (map_of (commits s) m) = Some [a, b]
        \<and> map_option parents (map_of (commits s) a) = Some [g]
        \<and> map_option parents (map_of (commits s) b) = Some [g]
        \<and> map_option parents (map_of (commits s) g) = Some [] \<longrightarrow>
        ancestors_of s m = Inr {g, a, b})"
proof (intro conjI impI)
  assume "\<not> exists s cid"
  then show "ancestors_of s cid = Inl LineageError" by (rule ancestors_of_unknown)
next
  assume "reachable s \<and> exists s cid"
  then have "store_ok s" "exists s cid" by (auto intro: reachable_store_ok)
  then show "ancestors_of s cid = Inr ((parent_rel s)\<^sup>+ `` {cid})"
    by (rule ancestors_of_closure)
next
  assume "reachable s \<and> exists s cid"
  then have "store_ok s" by (auto intro: reachable_store_ok)
  then show "cid \<notin> (parent_rel s)\<^sup>+ `` {cid}" using parent_rel_acyclic [of s cid] by auto
next
  assume d: "reachable s
        \<and> map_option parents (map_of (commits s) m) = Some [a, b]
        \<and> map_option parents (map_of (commits s) a) = Some [g]
        \<and> map_option parents (map_of (commits s) b) = Some [g]
        \<and> map_option parents (map_of (commits s) g) = Some []"
  then have ok: "store_ok s" by (auto intro: reachable_store_ok)
  from d have "exists s m" by (auto simp: exists_def)
  with ok have "ancestors_of s m = Inr ((parent_rel s)\<^sup>+ `` {m})" by (rule ancestors_of_closure)
  moreover have "(parent_rel s)\<^sup>+ `` {m} = {g, a, b}"
  proof (rule diamond_closure)
    from d show "parent_rel s `` {m} = {a, b}" using parents_of_edges [of s m "[a, b]"] by simp
    from d show "parent_rel s `` {a} = {g}" using parents_of_edges [of s a "[g]"] by simp
    from d show "parent_rel s `` {b} = {g}" using parents_of_edges [of s b "[g]"] by simp
    from d show "parent_rel s `` {g} = {}" using parents_of_edges [of s g "[]"] by simp
  qed
  ultimately show "ancestors_of s m = Inr {g, a, b}" by simp
qed

lemma diamond_store_parents:
  "map_option parents (map_of (commits diamond_store) ''M'') = Some [''A'', ''B'']"
  "map_option parents (map_of (commits diamond_store) ''A'') = Some [''G'']"
  "map_option parents (map_of (commits diamond_store) ''B'') = Some [''G'']"
  "map_option parents (map_of (commits diamond_store) ''G'') = Some []"
  by code_simp+

theorem ancestors_of_transitive_closure_witness:
  "\<not> exists diamond_store ''Z'' \<and> ancestors_of diamond_store ''Z'' = Inl LineageError
   \<and> reachable diamond_store \<and> exists diamond_store ''A''
   \<and> ancestors_of diamond_store ''A'' = Inr ((parent_rel diamond_store)\<^sup>+ `` {''A''})
   \<and> map_option parents (map_of (commits diamond_store) ''M'') = Some [''A'', ''B'']
   \<and> map_option parents (map_of (commits diamond_store) ''A'') = Some [''G'']
   \<and> map_option parents (map_of (commits diamond_store) ''B'') = Some [''G'']
   \<and> map_option parents (map_of (commits diamond_store) ''G'') = Some []
   \<and> ancestors_of diamond_store ''M'' = Inr {''G'', ''A'', ''B''}"
proof -
  have e: "\<not> exists diamond_store ''Z''" "exists diamond_store ''A''"
    by (simp_all add: diamond_store_def genesis_store_def exists_add exists_empty_store)
  from ancestors_of_transitive_closure [of diamond_store "''Z''" "''M''" "''A''" "''B''" "''G''"]
       ancestors_of_transitive_closure [of diamond_store "''A''" "''M''" "''A''" "''B''" "''G''"]
       e reachable_diamond_store diamond_store_parents
  show ?thesis by blast
qed

text \<open>
  C8: for two ids of a store built by \<^verbatim>\<open>append\<close>, \<^verbatim>\<open>lca_candidates\<close> returns the
  intersection of the two ancestor sets, each with its own id added: every common
  ancestor in the reflexive sense. With an id that the store does not have it fails with
  \<^verbatim>\<open>LineageError\<close>. In every store and for all ids the call is symmetric, failures
  included.
\<close>

theorem lca_candidates_intersection:
  "lca_candidates s x y = lca_candidates s y x
   \<and> (\<not> exists s a \<or> \<not> exists s b \<longrightarrow> lca_candidates s a b = Inl LineageError)
   \<and> (reachable s \<and> exists s a \<and> exists s b \<longrightarrow>
        (\<exists>A B. ancestors_of s a = Inr A \<and> ancestors_of s b = Inr B
           \<and> lca_candidates s a b = Inr ((A \<union> {a}) \<inter> (B \<union> {b}))
           \<and> (A \<union> {a}) \<inter> (B \<union> {b})
               = {c. (a, c) \<in> (parent_rel s)\<^sup>* \<and> (b, c) \<in> (parent_rel s)\<^sup>*}))"
proof (intro conjI impI)
  show "lca_candidates s x y = lca_candidates s y x"
  proof (cases "exists s x \<and> exists s y")
    case False
    then show ?thesis by (auto simp: lca_candidates_def exists_def)
  next
    case True
    then have xy: "lca_candidates s x y = (case ancestors_of s x of
             Inl e \<Rightarrow> Inl e
           | Inr anc_a \<Rightarrow>
               (case ancestors_of s y of
                  Inl e \<Rightarrow> Inl e
                | Inr anc_b \<Rightarrow> Inr ((anc_a \<union> {x}) \<inter> (anc_b \<union> {y}))))"
      and yx: "lca_candidates s y x = (case ancestors_of s y of
             Inl e \<Rightarrow> Inl e
           | Inr anc_a \<Rightarrow>
               (case ancestors_of s x of
                  Inl e \<Rightarrow> Inl e
                | Inr anc_b \<Rightarrow> Inr ((anc_a \<union> {y}) \<inter> (anc_b \<union> {x}))))"
      by (auto simp: lca_candidates_def exists_def)
    from True have err: "ancestors_of s x = Inl e \<Longrightarrow> e = KeyError"
      "ancestors_of s y = Inl e \<Longrightarrow> e = KeyError" for e
      by (auto dest: ancestors_of_error)
    show ?thesis unfolding xy yx
      by (cases "ancestors_of s x"; cases "ancestors_of s y") (auto dest: err simp: Int_commute)
  qed
next
  assume "\<not> exists s a \<or> \<not> exists s b"
  then show "lca_candidates s a b = Inl LineageError"
    by (auto simp: lca_candidates_def exists_def)
next
  assume h: "reachable s \<and> exists s a \<and> exists s b"
  then have ok: "store_ok s" by (auto intro: reachable_store_ok)
  let ?A = "(parent_rel s)\<^sup>+ `` {a}" and ?B = "(parent_rel s)\<^sup>+ `` {b}"
  from ok h have A: "ancestors_of s a = Inr ?A" and B: "ancestors_of s b = Inr ?B"
    by (auto intro: ancestors_of_closure)
  with h have "lca_candidates s a b = Inr ((?A \<union> {a}) \<inter> (?B \<union> {b}))"
    by (simp add: lca_candidates_def exists_def)
  moreover have "(?A \<union> {a}) \<inter> (?B \<union> {b})
      = {c. (a, c) \<in> (parent_rel s)\<^sup>* \<and> (b, c) \<in> (parent_rel s)\<^sup>*}"
    by (auto simp: rtrancl_eq_or_trancl)
  ultimately show "\<exists>A B. ancestors_of s a = Inr A \<and> ancestors_of s b = Inr B
           \<and> lca_candidates s a b = Inr ((A \<union> {a}) \<inter> (B \<union> {b}))
           \<and> (A \<union> {a}) \<inter> (B \<union> {b})
               = {c. (a, c) \<in> (parent_rel s)\<^sup>* \<and> (b, c) \<in> (parent_rel s)\<^sup>*}"
    using A B by blast
qed

theorem lca_candidates_intersection_witness:
  "lca_candidates diamond_store ''A'' ''B'' = lca_candidates diamond_store ''B'' ''A''
   \<and> \<not> exists diamond_store ''Z'' \<and> lca_candidates diamond_store ''A'' ''Z'' = Inl LineageError
   \<and> reachable diamond_store \<and> exists diamond_store ''A'' \<and> exists diamond_store ''B''
   \<and> (\<exists>A B. ancestors_of diamond_store ''A'' = Inr A \<and> ancestors_of diamond_store ''B'' = Inr B
         \<and> lca_candidates diamond_store ''A'' ''B'' = Inr ((A \<union> {''A''}) \<inter> (B \<union> {''B''})))"
proof -
  have e: "\<not> exists diamond_store ''Z''" "exists diamond_store ''A''" "exists diamond_store ''B''"
    by (simp_all add: diamond_store_def genesis_store_def exists_add exists_empty_store)
  from lca_candidates_intersection [of diamond_store "''A''" "''B''" "''A''" "''Z''"]
       lca_candidates_intersection [of diamond_store "''A''" "''B''" "''A''" "''B''"]
       e reachable_diamond_store
  show ?thesis by blast
qed

text \<open>
  C9: every store built by \<^verbatim>\<open>append\<close>, each call with a fresh id, has an acyclic commit
  graph. Every parent that a stored commit names is itself stored, the parent edges have
  no cycle, and for every stored id the ancestor traversal returns a set, which does not
  contain that id.
\<close>

theorem reachable_acyclic:
  assumes "reachable s"
  shows "acyclic (parent_rel s)
       \<and> (\<forall>c k. get s c = Inr k \<longrightarrow> list_all (exists s) (parents k))
       \<and> (\<forall>c. exists s c \<longrightarrow> (\<exists>A. ancestors_of s c = Inr A \<and> c \<notin> A))"
proof -
  from assms have ok: "store_ok s" by (rule reachable_store_ok)
  have "acyclic (parent_rel s)"
    unfolding acyclic_def using parent_rel_acyclic [OF ok] by blast
  moreover have "list_all (exists s) (parents k)" if "get s c = Inr k" for c k
  proof -
    from that have "map_of (commits s) c = Some k" by (auto simp: get_def split: option.splits)
    then have "(c, p) \<in> parent_rel s" if "p \<in> set (parents k)" for p
      using that by (auto simp: parent_rel_def)
    with ok show ?thesis by (auto simp: list_all_iff intro: parent_rel_exists)
  qed
  moreover have "\<exists>A. ancestors_of s c = Inr A \<and> c \<notin> A" if "exists s c" for c
    using ancestors_of_closure [OF ok that] parent_rel_acyclic [OF ok, of c] by auto
  ultimately show ?thesis by blast
qed

theorem reachable_acyclic_witness:
  "reachable diamond_store \<and> exists diamond_store ''M''
   \<and> acyclic (parent_rel diamond_store)
   \<and> (\<exists>A. ancestors_of diamond_store ''M'' = Inr A \<and> ''M'' \<notin> A)"
proof -
  have e: "exists diamond_store ''M''"
    by (simp add: diamond_store_def genesis_store_def exists_add exists_empty_store)
  from reachable_acyclic [OF reachable_diamond_store] e reachable_diamond_store
  show ?thesis by blast
qed

section \<open>Properties of the merge committer\<close>



lemma exists_update: "exists (s\<lparr>commits := AList.update cid c (commits s), children := ch\<rparr>) q
                        \<longleftrightarrow> exists s q \<or> q = cid"
  by (auto simp: exists_def update_conv')







section \<open>Properties of the merge analyzer\<close>

lemma get_exists: "exists s c \<Longrightarrow> \<exists>k. get s c = Inr k \<and> map_of (commits s) c = Some k"
  by (auto simp: exists_def get_def)



lemma pick_loop_total:
  "list_all (exists s) l \<Longrightarrow>
   \<exists>b. pick_loop s l best = Inr b
      \<and> (case b of None \<Rightarrow> best = None \<and> l = [] | Some x \<Rightarrow> Some x = best \<or> fst x \<in> set l)"
proof (induction l arbitrary: best)
  case Nil
  then show ?case by (cases best) auto
next
  case (Cons cid l)
  then have "exists s cid" and rest: "list_all (exists s) l" by simp_all
  from get_exists [OF this(1)] obtain k where g: "get s cid = Inr k" by blast
  show ?case
  proof (cases best)
    case None
    from Cons.IH [OF rest, of "Some (cid, timestamp_ms k, cid)"] None g show ?thesis
      by (auto split: option.splits)
  next
    case (Some b)
    show ?thesis
    proof (cases "key_gt (timestamp_ms k, cid) (snd b)")
      case True
      from Cons.IH [OF rest, of "Some (cid, timestamp_ms k, cid)"] Some g True show ?thesis
        by (auto split: option.splits)
    next
      case False
      from Cons.IH [OF rest, of best] Some g False show ?thesis
        by (auto split: option.splits)
    qed
  qed
qed





lemma analyse_subject_error: "analyse_subject lo ro bo sid acc = Inl e \<Longrightarrow> e = AssertionError \<and> lo = None \<and> ro = None"
  by (auto simp: analyse_subject_def Let_def split: option.splits if_splits)



lemma analyse_subject_none: "analyse_subject None None bo sid acc = Inl AssertionError"
  by (simp add: analyse_subject_def)

lemma merge_loop_assert:
  assumes "\<exists>sid \<in> set sids. map_of ll sid = None \<and> map_of rl sid = None"
  shows "merge_loop ll rl bl sids acc = Inl AssertionError"
  using assms
proof (induction sids arbitrary: acc)
  case Nil
  then show ?case by simp
next
  case (Cons sid sids)
  show ?case
  proof (cases "analyse_subject (map_of ll sid) (map_of rl sid) (map_of bl sid) sid acc")
    case (Inl e)
    then show ?thesis by (auto dest: analyse_subject_error)
  next
    case (Inr acc')
    have "map_of ll sid \<noteq> None \<or> map_of rl sid \<noteq> None"
    proof (rule ccontr)
      assume "\<not> (map_of ll sid \<noteq> None \<or> map_of rl sid \<noteq> None)"
      then have "analyse_subject (map_of ll sid) (map_of rl sid) (map_of bl sid) sid acc
                   = Inl AssertionError" by (simp add: analyse_subject_none)
      with Inr show False by simp
    qed
    with Cons.prems have "\<exists>sid \<in> set sids. map_of ll sid = None \<and> map_of rl sid = None" by auto
    from Cons.IH [OF this] Inr show ?thesis by simp
  qed
qed






lemma three_way_unfold:
  assumes "exists s left" "exists s right" "pick_base s left right = Inr base"
    "commit_chain s left = Some (Inr lc)" "commit_chain s right = Some (Inr rc)"
    "base_view s base = Some (Inr bl)"
  shows "three_way_merge_analysis s left right =
           (case merge_loop (index_latest_by_subject lc) (index_latest_by_subject rc) bl
                   (sorted_list_of_set (set (map fst (index_latest_by_subject lc)
                        @ map fst (index_latest_by_subject rc) @ map fst bl))) ([], []) of
              Inl e \<Rightarrow> Some (Inl e)
            | Inr acc \<Rightarrow>
                Some (Inr \<lparr>base_commit = base, left_commit = left, right_commit = right,
                           actions = fst acc, conflicts = snd acc,
                           decision_note = analysis_note\<rparr>))"
  using assms by (simp add: three_way_merge_analysis_def Let_def)




lemma three_way_merge_failures:
  shows "\<not> exists s left \<or> \<not> exists s right \<Longrightarrow>
           three_way_merge_analysis s left right = Some (Inl MergeError)"
    and "reachable s \<Longrightarrow> exists s left \<Longrightarrow> exists s right \<Longrightarrow>
           pick_base s left right = Inr base \<Longrightarrow>
           commit_chain s left = Some (Inr lc) \<Longrightarrow> commit_chain s right = Some (Inr rc) \<Longrightarrow>
           base_view s base = Some (Inr bl) \<Longrightarrow>
           \<not> fst ` set bl \<subseteq> fst ` set (index_latest_by_subject lc)
                               \<union> fst ` set (index_latest_by_subject rc) \<Longrightarrow>
           three_way_merge_analysis s left right = Some (Inl AssertionError)"
proof -
  show "three_way_merge_analysis s left right = Some (Inl MergeError)"
    if "\<not> exists s left \<or> \<not> exists s right"
    using that by (auto simp: three_way_merge_analysis_def)
next
  let ?ll = "index_latest_by_subject lc" and ?rl = "index_latest_by_subject rc"
  let ?sids = "sorted_list_of_set (set (map fst ?ll @ map fst ?rl @ map fst bl))"
  assume h: "exists s left" "exists s right" "pick_base s left right = Inr base"
    "commit_chain s left = Some (Inr lc)" "commit_chain s right = Some (Inr rc)"
    "base_view s base = Some (Inr bl)"
    and n: "\<not> fst ` set bl \<subseteq> fst ` set ?ll \<union> fst ` set ?rl"
  from n obtain sid where "sid \<in> fst ` set bl" "sid \<notin> fst ` set ?ll" "sid \<notin> fst ` set ?rl"
    by blast
  then have "\<exists>sid \<in> set ?sids. map_of ?ll sid = None \<and> map_of ?rl sid = None"
    by (intro bexI [of _ sid]) (auto simp: map_of_eq_None_iff)
  from merge_loop_assert [OF this, of bl "([], [])"]
  show "three_way_merge_analysis s left right = Some (Inl AssertionError)"
    by (simp add: three_way_unfold [OF h])
qed


lemma reachable_two_merge_store: "reachable two_merge_store"
  unfolding two_merge_store_def
  by (intro reachable_add reachable.start) (simp_all add: exists_add exists_empty_store)


lemma exists_two_merge_store: "exists two_merge_store q \<longleftrightarrow> q \<in> {''G1'', ''G2'', ''L'', ''R''}"
  by (auto simp: two_merge_store_def exists_add exists_empty_store)




text \<open>
  C2: the analysis fails with \<^verbatim>\<open>MergeError\<close> when a head is absent, but that is not its
  only failure. In the store below, built by four calls of \<^verbatim>\<open>append\<close>, both heads are
  present; the base is the genesis \<open>G2\<close>, whose subject \<open>B\<close> is in neither the left nor
  the right view, because both heads are merge commits and their chains stop at once.
  For that subject \<^verbatim>\<open>assert l and r\<close> fails and the analysis raises
  \<^verbatim>\<open>AssertionError\<close>.
\<close>

theorem three_way_merge_assertion_failure:
  "reachable two_merge_store \<and> exists two_merge_store ''L'' \<and> exists two_merge_store ''R''
   \<and> \<not> exists two_merge_store ''Z''
   \<and> three_way_merge_analysis two_merge_store ''L'' ''Z'' = Some (Inl MergeError)
   \<and> three_way_merge_analysis two_merge_store ''L'' ''R'' = Some (Inl AssertionError)"
proof -
  have "three_way_merge_analysis two_merge_store ''L'' ''Z'' = Some (Inl MergeError)"
    by code_simp
  moreover have "three_way_merge_analysis two_merge_store ''L'' ''R'' = Some (Inl AssertionError)"
    by code_simp
  ultimately show ?thesis
    by (simp add: reachable_two_merge_store exists_two_merge_store)
qed

theorem three_way_merge_assertion_failure_witness:
  "exists two_merge_store ''L'' \<and> exists two_merge_store ''R''
   \<and> three_way_merge_analysis two_merge_store ''L'' ''R'' \<noteq> Some (Inl MergeError)
   \<and> (\<forall>d. three_way_merge_analysis two_merge_store ''L'' ''R'' \<noteq> Some (Inr d))"
  using three_way_merge_assertion_failure by simp

section \<open>The base does not depend on the order in which the candidates are visited\<close>

lemma key_gt_trans_neg: "\<not> key_gt a b \<Longrightarrow> \<not> key_gt b c \<Longrightarrow> \<not> key_gt a c"
  by (auto simp: key_gt_def)

lemma key_gt_less_neg: "key_gt b a \<Longrightarrow> \<not> key_gt b c \<Longrightarrow> \<not> key_gt a c"
  by (auto simp: key_gt_def)

lemma key_gt_antisym: "\<not> key_gt a b \<Longrightarrow> \<not> key_gt b a \<Longrightarrow> a = b"
  by (auto simp: key_gt_def prod_eq_iff)

lemma pick_loop_greatest:
  assumes "list_all (exists s) l" "pick_loop s l best = Inr b"
    and "\<forall>y. best = Some y \<longrightarrow> snd y = base_key s (fst y)"
  shows "(b = None \<longleftrightarrow> best = None \<and> l = [])
       \<and> (\<forall>x. b = Some x \<longrightarrow>
             snd x = base_key s (fst x)
           \<and> (Some x = best \<or> fst x \<in> set l)
           \<and> (\<forall>c \<in> set l. \<not> key_gt (base_key s c) (snd x))
           \<and> (\<forall>y. best = Some y \<longrightarrow> \<not> key_gt (snd y) (snd x)))"
  using assms
proof (induction l arbitrary: best)
  case Nil
  then show ?case by (auto simp: key_gt_def)
next
  case (Cons cid l)
  from Cons.prems(1) have e: "exists s cid" and rest: "list_all (exists s) l" by simp_all
  from get_exists [OF e] obtain k where g: "get s cid = Inr k"
    and m: "map_of (commits s) cid = Some k" by blast
  then have K: "base_key s cid = (timestamp_ms k, cid)" by (simp add: base_key_def)
  define best' where "best' = (case best of
        None \<Rightarrow> Some (cid, timestamp_ms k, cid)
      | Some y \<Rightarrow> if key_gt (timestamp_ms k, cid) (snd y) then Some (cid, timestamp_ms k, cid) else best)"
  have run: "pick_loop s l best' = Inr b"
    using Cons.prems(2) g by (auto simp: best'_def split: option.splits if_splits)
  have wf': "\<forall>y. best' = Some y \<longrightarrow> snd y = base_key s (fst y)"
    using Cons.prems(3) K by (auto simp: best'_def split: option.splits if_splits)
  note IH = Cons.IH [OF rest run wf']
  have notNone: "best' \<noteq> None" by (auto simp: best'_def split: option.splits)
  with IH obtain x where x: "b = Some x" by (cases b) auto
  from IH have "\<forall>x. b = Some x \<longrightarrow>
             snd x = base_key s (fst x)
           \<and> (Some x = best' \<or> fst x \<in> set l)
           \<and> (\<forall>c \<in> set l. \<not> key_gt (base_key s c) (snd x))
           \<and> (\<forall>y. best' = Some y \<longrightarrow> \<not> key_gt (snd y) (snd x))" by (rule conjunct2)
  with x have sx: "snd x = base_key s (fst x)"
    and from': "Some x = best' \<or> fst x \<in> set l"
    and ge_l: "\<forall>c \<in> set l. \<not> key_gt (base_key s c) (snd x)"
    and ge_b': "\<forall>y. best' = Some y \<longrightarrow> \<not> key_gt (snd y) (snd x)"
    by blast+
  have src: "Some x = best \<or> fst x \<in> set (cid # l)"
    using from' by (auto simp: best'_def split: option.splits if_splits)
  have ge_cid: "\<not> key_gt (base_key s cid) (snd x)"
  proof (cases "best' = Some (cid, timestamp_ms k, cid)")
    case True
    with ge_b' K show ?thesis by auto
  next
    case False
    then obtain y where y: "best = Some y" "best' = Some y" "\<not> key_gt (timestamp_ms k, cid) (snd y)"
      by (auto simp: best'_def split: option.splits if_splits)
    with ge_b' have "\<not> key_gt (snd y) (snd x)" by simp
    with y(3) have "\<not> key_gt (timestamp_ms k, cid) (snd x)" by (rule key_gt_trans_neg)
    with K show ?thesis by simp
  qed
  have ge_best: "\<not> key_gt (snd y) (snd x)" if "best = Some y" for y
  proof (cases "best' = best")
    case True
    with ge_b' that show ?thesis by simp
  next
    case False
    with that have new: "best' = Some (cid, timestamp_ms k, cid)"
      and gt: "key_gt (timestamp_ms k, cid) (snd y)"
      by (auto simp: best'_def split: if_splits)
    from new ge_b' have "\<not> key_gt (timestamp_ms k, cid) (snd x)" by simp
    with gt show ?thesis by (rule key_gt_less_neg)
  qed
  from x sx src ge_cid ge_l ge_best show ?case by fastforce
qed

lemma pick_loop_order_independent:
  assumes "list_all (exists s) l" "set l = set l'"
  shows "pick_loop s l None = pick_loop s l' None"
proof -
  from assms have all': "list_all (exists s) l'" by (simp add: list_all_iff)
  from pick_loop_total [OF assms(1), of None] obtain b where b: "pick_loop s l None = Inr b" by blast
  from pick_loop_total [OF all', of None] obtain b' where b': "pick_loop s l' None = Inr b'" by blast
  note g = pick_loop_greatest [OF assms(1) b] and g' = pick_loop_greatest [OF all' b']
  show ?thesis
  proof (cases b)
    case None
    with g g' assms(2) have "b' = None" by auto
    with None b b' show ?thesis by simp
  next
    case (Some x)
    with g g' assms(2) obtain x' where x': "b' = Some x'" by (cases b') auto
    from g Some have 1: "snd x = base_key s (fst x)" "fst x \<in> set l"
      "\<forall>c \<in> set l. \<not> key_gt (base_key s c) (snd x)" by auto
    from g' x' have 2: "snd x' = base_key s (fst x')" "fst x' \<in> set l'"
      "\<forall>c \<in> set l'. \<not> key_gt (base_key s c) (snd x')" by auto
    from 1 2 assms(2) have "\<not> key_gt (snd x') (snd x)" "\<not> key_gt (snd x) (snd x')" by auto
    then have "snd x = snd x'" by (rule key_gt_antisym [rotated])
    moreover with 1(1) 2(1) have "fst x = fst x'"
      by (auto simp: base_key_def split: option.splits)
    ultimately have "x = x'" by (simp add: prod_eq_iff)
    with Some x' b b' show ?thesis by simp
  qed
qed

end
